theory Spec2Isabelle
  imports Complex_Main
begin

section \<open>Values of the program\<close>

text \<open>
  A naive \<^verbatim>\<open>datetime\<close> has microsecond resolution and no time zone. It is
  represented by the number of microseconds since 0001-01-01 00:00:00, which is
  what comparison and subtraction of two naive datetimes depend on. A
  \<^verbatim>\<open>timedelta\<close> is a difference of two such counts, and
  \<^verbatim>\<open>total_seconds()\<close> divides it by \<open>10^6\<close>. Python returns a float there; the
  model keeps the exact rational.
\<close>

type_synonym datetime = int
type_synonym timedelta = int

definition total_seconds :: "timedelta \<Rightarrow> rat" where
  "total_seconds d = of_int d / 1000000"

text \<open>A charge event is the pair \<^verbatim>\<open>(timestamp, charge)\<close> built in \<^verbatim>\<open>process_lines\<close>.\<close>

type_synonym event = "datetime \<times> int"

datatype py_error = IndexError | ValueError | TypeError

text \<open>
  A call either returns a value, leaves the process through \<^verbatim>\<open>sys.exit(n)\<close>,
  or raises an exception that nothing catches.
\<close>

datatype 'a res = Ok 'a | Exit nat | Raise py_error

text \<open>
  Every \<^verbatim>\<open>print\<close> is recorded with the stream it writes to. A formatted line is
  recorded by the arguments given to \<^verbatim>\<open>format\<close>; a fixed message by its text.
\<close>

datatype stream = Stdout | Stderr

datatype message =
    Text string
  | GapWarning int
  | IntervalLine datetime datetime int int int string
  | SummaryStart datetime int
  | SummaryTotal int int int string
  | RateLine rat string
  | Usage string

type_synonym outp = "(stream \<times> message) list"

text \<open>
  Sequencing of two steps: what the first step printed stays printed, and an exit
  or an exception of the first step ends the run.
\<close>

definition bind :: "outp \<times> 'a res \<Rightarrow> ('a \<Rightarrow> outp \<times> 'b res) \<Rightarrow> outp \<times> 'b res" where
  "bind m f =
     (case m of
        (o1, Ok x) \<Rightarrow> (case f x of (o2, r) \<Rightarrow> (o1 @ o2, r))
      | (o1, Exit n) \<Rightarrow> (o1, Exit n)
      | (o1, Raise e) \<Rightarrow> (o1, Raise e))"

section \<open>Nearest-timestamp lookup\<close>

text \<open>
  \<^verbatim>\<open>bisect.bisect_left(a, x)\<close> with its default bounds \<^verbatim>\<open>lo = 0\<close>,
  \<^verbatim>\<open>hi = len(a)\<close>:
  \<^verbatim>\<open>
    while lo < hi:
        mid = (lo + hi) // 2
        if a[mid] < x: lo = mid + 1
        else: hi = mid
    return lo
  \<close>
  The read \<^verbatim>\<open>a[mid]\<close> is in range because \<open>mid < hi \<le> len(a)\<close>.
\<close>

function bisect_left_loop :: "datetime list \<Rightarrow> datetime \<Rightarrow> nat \<Rightarrow> nat \<Rightarrow> nat" where
  "bisect_left_loop a x lo hi =
     (if lo < hi then
        (let mid = (lo + hi) div 2 in
         if a ! mid < x then bisect_left_loop a x (mid + 1) hi
         else bisect_left_loop a x lo mid)
      else lo)"
  by pat_completeness auto
termination
  by (relation "measure (\<lambda>(a, x, lo, hi). hi - lo)") auto

declare bisect_left_loop.simps [simp del]

definition bisect_left :: "datetime list \<Rightarrow> datetime \<Rightarrow> nat" where
  "bisect_left a x = bisect_left_loop a x 0 (length a)"

text \<open>
  \<^verbatim>\<open>get_closest_event(events, timestamp)\<close>. \<^verbatim>\<open>events[0]\<close> raises
  \<^verbatim>\<open>IndexError\<close> on the empty list; \<^verbatim>\<open>events[-1]\<close> is read only when
  \<open>pos = len(events)\<close> and \<open>pos \<noteq> 0\<close>, where it is the last element. The gap
  diagnostic is a plain \<^verbatim>\<open>print\<close>, so it goes to standard output; its
  argument is \<^verbatim>\<open>min(delta_to_after, delta_to_before) // 60\<close>.
\<close>

definition get_closest_event :: "event list \<Rightarrow> datetime \<Rightarrow> outp \<times> event res" where
  "get_closest_event events timestamp =
     (let timestamps_of_events = map fst events;
          pos = bisect_left timestamps_of_events timestamp
      in if pos = 0 then
           (case events of [] \<Rightarrow> ([], Raise IndexError) | e # _ \<Rightarrow> ([], Ok e))
         else if pos = length events then ([], Ok (last events))
         else
           (let before = events ! (pos - 1);
                after = events ! pos;
                delta_to_before = total_seconds (timestamp - fst before);
                delta_to_after = total_seconds (fst after - timestamp)
            in ((if min delta_to_after delta_to_before > 600
                 then [(Stdout, GapWarning \<lfloor>min delta_to_after delta_to_before / 60\<rfloor>)]
                 else []),
                Ok (if delta_to_before < delta_to_after then before else after))))"

section \<open>Regular expressions of the log grammar\<close>

text \<open>
  A \<^typ>\<open>char\<close> stands for the code point of the same number, so the model covers
  texts whose code points are below 256. On these, the classes of Python's
  \<^verbatim>\<open>re\<close> for \<^verbatim>\<open>str\<close> patterns are: \<^verbatim>\<open>\d\<close> the ten ASCII digits; \<^verbatim>\<open>\s\<close> the code
  points 9-13, 28-32, 133 and 160; \<^verbatim>\<open>\w\<close> the ASCII letters, digits and underscore
  and the alphanumeric code points of Latin-1; \<^verbatim>\<open>.\<close> everything but the newline.
\<close>

datatype cls = Digit | Space | WordCh | AnyCh | Ch char | OneOf string

definition is_digit :: "char \<Rightarrow> bool" where
  "is_digit c = (let n = (of_char c :: nat) in 48 \<le> n \<and> n \<le> 57)"

definition is_space :: "char \<Rightarrow> bool" where
  "is_space c = (let n = (of_char c :: nat) in
     (9 \<le> n \<and> n \<le> 13) \<or> (28 \<le> n \<and> n \<le> 32) \<or> n = 133 \<or> n = 160)"

definition is_word :: "char \<Rightarrow> bool" where
  "is_word c = (let n = (of_char c :: nat) in
     (48 \<le> n \<and> n \<le> 57) \<or> (65 \<le> n \<and> n \<le> 90) \<or> n = 95 \<or> (97 \<le> n \<and> n \<le> 122)
     \<or> n = 170 \<or> n = 178 \<or> n = 179 \<or> n = 181 \<or> n = 185 \<or> n = 186
     \<or> (188 \<le> n \<and> n \<le> 190) \<or> (192 \<le> n \<and> n \<le> 214)
     \<or> (216 \<le> n \<and> n \<le> 246) \<or> (248 \<le> n \<and> n \<le> 255))"

fun in_cls :: "cls \<Rightarrow> char \<Rightarrow> bool" where
  "in_cls Digit c = is_digit c"
| "in_cls Space c = is_space c"
| "in_cls WordCh c = is_word c"
| "in_cls AnyCh c = (c \<noteq> CHR 0x0A)"
| "in_cls (Ch d) c = (c = d)"
| "in_cls (OneOf ds) c = (c \<in> set ds)"

text \<open>
  The fragment of the pattern language the program uses: a literal text, a
  character class under a greedy repetition \<^verbatim>\<open>{lo,hi}\<close> (\<^verbatim>\<open>+\<close> is \<open>1\<close> and no upper
  bound, \<^verbatim>\<open>*\<close> is \<open>0\<close> and no upper bound), concatenation, alternation and a named
  group.
\<close>

datatype rx = Lit string | Rep cls nat "nat option" | Cat rx rx | Or rx rx | Grp string rx

type_synonym caps = "(string \<times> string) list"

text \<open>
  Backtracking search: \<open>rx_run r s caps\<close> lists every way \<open>r\<close> matches a prefix
  of \<open>s\<close>, as the groups captured and the text left over, in the order in which
  a backtracking matcher tries them: a greedy repetition takes the longest run
  first, an alternation its left branch first. The match that \<^verbatim>\<open>re\<close> reports is
  the first entry.
\<close>

fun rx_run :: "rx \<Rightarrow> string \<Rightarrow> caps \<Rightarrow> (caps \<times> string) list" where
  "rx_run (Lit w) s caps =
     (if take (length w) s = w then [(caps, drop (length w) s)] else [])"
| "rx_run (Rep c lo hi) s caps =
     (let n = length (takeWhile (in_cls c) s);
          m = (case hi of None \<Rightarrow> n | Some h \<Rightarrow> min h n)
      in map (\<lambda>k. (caps, drop k s)) (rev [lo..<Suc m]))"
| "rx_run (Cat a b) s caps =
     concat (map (\<lambda>(caps', rest). rx_run b rest caps') (rx_run a s caps))"
| "rx_run (Or a b) s caps = rx_run a s caps @ rx_run b s caps"
| "rx_run (Grp name r) s caps =
     map (\<lambda>(caps', rest). ((name, take (length s - length rest) s) # caps', rest))
       (rx_run r s caps)"

text \<open>\<^verbatim>\<open>pattern.match(line)\<close>: a match anchored at the start of the line, or \<^verbatim>\<open>None\<close>.\<close>

definition rx_match :: "rx \<Rightarrow> string \<Rightarrow> (caps \<times> string) option" where
  "rx_match r s = (case rx_run r s [] of [] \<Rightarrow> None | x # _ \<Rightarrow> Some x)"

text \<open>
  \<^verbatim>\<open>match["name"]\<close>. Every named group of the two patterns lies on every path
  through its pattern, so a successful match always binds it.
\<close>

definition group :: "caps \<Rightarrow> string \<Rightarrow> string" where
  "group c name = (case map_of c name of Some t \<Rightarrow> t | None \<Rightarrow> [])"

text \<open>
  \<^verbatim>\<open>pattern.findall(text)\<close>: scan from left to right; where the pattern matches,
  record the groups and go on after the match, otherwise move one character on.
  (The patterns here never match the empty text; for such a match the scan also
  moves one character on.)
\<close>

function rx_findall :: "rx \<Rightarrow> string \<Rightarrow> caps list" where
  "rx_findall r s =
     (case rx_match r s of
        None \<Rightarrow> (case s of [] \<Rightarrow> [] | _ # t \<Rightarrow> rx_findall r t)
      | Some (c, rest) \<Rightarrow>
          c # (if length rest < length s then rx_findall r rest
               else (case s of [] \<Rightarrow> [] | _ # t \<Rightarrow> rx_findall r t)))"
  by pat_completeness auto
termination
  by (relation "measure (\<lambda>(r, s). length s)") auto

declare rx_findall.simps [simp del]

fun cat :: "rx list \<Rightarrow> rx" where
  "cat [] = Lit []"
| "cat [r] = r"
| "cat (r # rs) = Cat r (cat rs)"

text \<open>
  \<^verbatim>\<open>TIMESTAMP_REGEX = r"(?P<timestamp>\d{4}-\d{2}-\d{2}\s\d{2}:\d{2}:\d{2})\s[+-]\d{4}"\<close>
\<close>

definition TIMESTAMP_REGEX :: rx where
  "TIMESTAMP_REGEX =
     cat [Grp ''timestamp''
            (cat [Rep Digit 4 (Some 4), Lit ''-'', Rep Digit 2 (Some 2), Lit ''-'',
                  Rep Digit 2 (Some 2), Rep Space 1 (Some 1),
                  Rep Digit 2 (Some 2), Lit '':'', Rep Digit 2 (Some 2), Lit '':'',
                  Rep Digit 2 (Some 2)]),
          Rep Space 1 (Some 1), Rep (OneOf ''+-'') 1 (Some 1), Rep Digit 4 (Some 4)]"

text \<open>
  \<^verbatim>\<open>TIMESTAMP_REGEX + r"\s+\w+\s+.*Using (?P<type>AC|Batt|BATT)\s*\(Charge:\s*(?P<charge>\d+)%*\)"\<close>
\<close>

definition charge_regex :: rx where
  "charge_regex =
     Cat TIMESTAMP_REGEX
       (cat [Rep Space 1 None, Rep WordCh 1 None, Rep Space 1 None, Rep AnyCh 0 None,
             Lit ''Using '', Grp ''type'' (Or (Lit ''AC'') (Or (Lit ''Batt'') (Lit ''BATT''))),
             Rep Space 0 None, Lit ''(Charge:'', Rep Space 0 None,
             Grp ''charge'' (Rep Digit 1 None), Rep (Ch CHR ''%'') 0 None, Lit '')''])"

text \<open>\<^verbatim>\<open>TIMESTAMP_REGEX + r"\s+\w+\s+Display is turned (?P<state>\w+)"\<close>\<close>

definition display_regex :: rx where
  "display_regex =
     Cat TIMESTAMP_REGEX
       (cat [Rep Space 1 None, Rep WordCh 1 None, Rep Space 1 None,
             Lit ''Display is turned '', Grp ''state'' (Rep WordCh 1 None)])"

section \<open>Timestamps and numbers\<close>

text \<open>\<^verbatim>\<open>int(text)\<close> on a text of decimal digits.\<close>

definition digit_val :: "char \<Rightarrow> int" where
  "digit_val c = of_char c - 48"

definition int_of_digits :: "string \<Rightarrow> int" where
  "int_of_digits s = foldl (\<lambda>a c. 10 * a + digit_val c) 0 s"

text \<open>
  The proleptic Gregorian calendar as in \<^verbatim>\<open>datetime\<close>: leap years, the length
  of a month, and the number of days before a year and before a month.
\<close>

definition is_leap :: "int \<Rightarrow> bool" where
  "is_leap y = (y mod 4 = 0 \<and> (y mod 100 \<noteq> 0 \<or> y mod 400 = 0))"

definition days_in_month :: "int \<Rightarrow> int \<Rightarrow> int" where
  "days_in_month y m =
     (if m = 2 then (if is_leap y then 29 else 28)
      else if m = 4 \<or> m = 6 \<or> m = 9 \<or> m = 11 then 30 else 31)"

definition days_before_year :: "int \<Rightarrow> int" where
  "days_before_year y = (y - 1) * 365 + (y - 1) div 4 - (y - 1) div 100 + (y - 1) div 400"

definition days_before_month :: "int \<Rightarrow> int \<Rightarrow> int" where
  "days_before_month y m =
     [0, 31, 59, 90, 120, 151, 181, 212, 243, 273, 304, 334] ! nat (m - 1)
     + (if 2 < m \<and> is_leap y then 1 else 0)"

text \<open>
  \<^verbatim>\<open>convert_timestamp(timestamp) = datetime.strptime(timestamp, "%Y-%m-%d %H:%M:%S")\<close>.
  Every call passes the text captured by the group \<^verbatim>\<open>timestamp\<close>, which has the
  shape \<^verbatim>\<open>dddd-dd-dd\<close>, one white-space character, \<^verbatim>\<open>dd:dd:dd\<close>. On that shape
  \<^verbatim>\<open>strptime\<close> returns the naive datetime when the fields name a real date and
  time of day (year at least 1, seconds at most 59) and raises \<^verbatim>\<open>ValueError\<close>
  otherwise. Texts of another shape are answered with \<^verbatim>\<open>ValueError\<close> here,
  although \<^verbatim>\<open>strptime\<close> accepts some of them (one-digit fields); no call site
  produces them.
\<close>

definition timestamp_shape :: "string \<Rightarrow> bool" where
  "timestamp_shape s =
     (length s = 19 \<and> list_all is_digit (take 4 s) \<and> s ! 4 = CHR ''-''
      \<and> list_all is_digit (take 2 (drop 5 s)) \<and> s ! 7 = CHR ''-''
      \<and> list_all is_digit (take 2 (drop 8 s)) \<and> is_space (s ! 10)
      \<and> list_all is_digit (take 2 (drop 11 s)) \<and> s ! 13 = CHR '':''
      \<and> list_all is_digit (take 2 (drop 14 s)) \<and> s ! 16 = CHR '':''
      \<and> list_all is_digit (take 2 (drop 17 s)))"

definition convert_timestamp :: "string \<Rightarrow> datetime res" where
  "convert_timestamp s =
     (if \<not> timestamp_shape s then Raise ValueError
      else
        (let year = int_of_digits (take 4 s);
             month = int_of_digits (take 2 (drop 5 s));
             day = int_of_digits (take 2 (drop 8 s));
             hour = int_of_digits (take 2 (drop 11 s));
             minute = int_of_digits (take 2 (drop 14 s));
             second = int_of_digits (take 2 (drop 17 s))
         in if 1 \<le> year \<and> 1 \<le> month \<and> month \<le> 12 \<and> 1 \<le> day \<and> day \<le> days_in_month year month
               \<and> hour \<le> 23 \<and> minute \<le> 59 \<and> second \<le> 59
            then Ok (((((days_before_year year + days_before_month year month + day - 1) * 24
                        + hour) * 60 + minute) * 60 + second) * 1000000)
            else Raise ValueError))"

text \<open>
  \<^verbatim>\<open>int(x)\<close> of a float truncates towards zero; \<^verbatim>\<open>x % m\<close> of floats with
  \<open>m > 0\<close> lies in \<open>[0, m)\<close>. Both on exact rationals.
\<close>

definition py_trunc :: "rat \<Rightarrow> int" where
  "py_trunc x = (if 0 \<le> x then \<lfloor>x\<rfloor> else \<lceil>x\<rceil>)"

definition py_fmod :: "rat \<Rightarrow> rat \<Rightarrow> rat" where
  "py_fmod x m = x - m * of_int \<lfloor>x / m\<rfloor>"

section \<open>The analysis\<close>

subsection \<open>Boundary detection\<close>

text \<open>
  The variables of the backward scan of \<^verbatim>\<open>process_lines\<close>. The three start
  values are \<^verbatim>\<open>None\<close> until a battery line is met.
\<close>

record scan_state =
  start_index :: "nat option"
  start_charge :: "int option"
  start_timestamp :: "datetime option"
  seen_batt :: bool
  end_index :: nat

text \<open>
  \<^verbatim>\<open>for i, line in enumerate(reversed(pmset_lines))\<close>, with \<open>n = len(pmset_lines)\<close>.
  The result says whether the loop was left by \<^verbatim>\<open>break\<close>; \<^verbatim>\<open>convert_timestamp\<close>
  may raise.
\<close>

fun scan_back :: "string list \<Rightarrow> nat \<Rightarrow> nat \<Rightarrow> scan_state \<Rightarrow> (bool \<times> scan_state) res" where
  "scan_back [] i n st = Ok (False, st)"
| "scan_back (line # rest) i n st =
     (case rx_match charge_regex line of
        None \<Rightarrow> scan_back rest (i + 1) n st
      | Some (m, _) \<Rightarrow>
          (let charge_type = group m ''type'';
               st1 = (if \<not> seen_batt st \<and> charge_type = ''AC''
                      then st\<lparr>end_index := n - i - 1\<rparr> else st)
           in if seen_batt st1 \<and> charge_type = ''AC'' then Ok (True, st1)
              else if charge_type \<noteq> ''AC'' then
                (case convert_timestamp (group m ''timestamp'') of
                   Ok ts \<Rightarrow>
                     scan_back rest (i + 1) n
                       (st1\<lparr>start_index := Some (n - i),
                            start_charge := Some (int_of_digits (group m ''charge'')),
                            start_timestamp := Some ts,
                            seen_batt := True\<rparr>)
                 | Exit k \<Rightarrow> Exit k
                 | Raise e \<Rightarrow> Raise e)
              else scan_back rest (i + 1) n st1))"

definition find_boundary :: "string list \<Rightarrow> outp \<times> scan_state res" where
  "find_boundary pmset_lines =
     (case scan_back (rev pmset_lines) 0 (length pmset_lines)
             \<lparr>start_index = None, start_charge = None, start_timestamp = None,
              seen_batt = False, end_index = length pmset_lines\<rparr> of
        Ok (True, st) \<Rightarrow> ([], Ok st)
      | Ok (False, st) \<Rightarrow>
          ([(Stdout, Text ''Could not determine when the PC was last unplugged from AC.'')],
           Exit 1)
      | Exit k \<Rightarrow> ([], Exit k)
      | Raise e \<Rightarrow> ([], Raise e))"

text \<open>
  \<^verbatim>\<open>for line in reversed(pmset_lines[:start_index])\<close>: the state of the first line
  that matches the display pattern. The slice \<^verbatim>\<open>[:None]\<close> is the whole list.
\<close>

fun first_display_state :: "string list \<Rightarrow> string option" where
  "first_display_state [] = None"
| "first_display_state (line # rest) =
     (case rx_match display_regex line of
        Some (m, _) \<Rightarrow> Some (group m ''state'')
      | None \<Rightarrow> first_display_state rest)"

definition find_display_state :: "string list \<Rightarrow> nat option \<Rightarrow> outp \<times> string res" where
  "find_display_state pmset_lines start_idx =
     (case first_display_state
             (rev (case start_idx of None \<Rightarrow> pmset_lines | Some k \<Rightarrow> take k pmset_lines)) of
        Some s \<Rightarrow> ([], Ok s)
      | None \<Rightarrow>
          ([(Stdout, Text ''Could not determine the state of the display when AC was unplugged.'')],
           Exit 1))"

subsection \<open>Charge events\<close>

fun join_lines :: "string list \<Rightarrow> string" where
  "join_lines [] = []"
| "join_lines [l] = l"
| "join_lines (l # ls) = l @ CHR 0x0A # join_lines ls"

text \<open>
  The list comprehension over \<^verbatim>\<open>findall\<close>: \<^verbatim>\<open>match[0]\<close> is the group
  \<^verbatim>\<open>timestamp\<close>, \<^verbatim>\<open>match[-1]\<close> the group \<^verbatim>\<open>charge\<close>. The first
  \<^verbatim>\<open>ValueError\<close> of \<^verbatim>\<open>convert_timestamp\<close> ends it. (\<^verbatim>\<open>int\<close> is taken without
  the interpreter's optional limit on the number of digits.)
\<close>

fun events_of :: "caps list \<Rightarrow> event list res" where
  "events_of [] = Ok []"
| "events_of (m # ms) =
     (case convert_timestamp (group m ''timestamp'') of
        Ok ts \<Rightarrow>
          (case events_of ms of
             Ok es \<Rightarrow> Ok ((ts, int_of_digits (group m ''charge'')) # es)
           | Exit k \<Rightarrow> Exit k
           | Raise e \<Rightarrow> Raise e)
      | Exit k \<Rightarrow> Exit k
      | Raise e \<Rightarrow> Raise e)"

definition charge_events_from :: "string list \<Rightarrow> nat \<Rightarrow> event list res" where
  "charge_events_from pmset_lines start_idx =
     events_of (rx_findall charge_regex (join_lines (drop (start_idx - 1) pmset_lines)))"

subsection \<open>Forward walk\<close>

record walk_state =
  current_display_state :: string
  last_display_switch :: datetime
  total_time_with_display_on :: rat
  total_time_with_display_off :: rat
  total_consumption_with_display_on :: int
  total_consumption_with_display_off :: int

text \<open>
  The body of \<^verbatim>\<open>for line in pmset_lines[start_index:end_index]\<close>. The two lookups
  are evaluated left to right, each may print its diagnostic, and the report line
  follows them.
\<close>

definition walk_step :: "event list \<Rightarrow> walk_state \<Rightarrow> string \<Rightarrow> outp \<times> walk_state res" where
  "walk_step charge_events st line =
     (case rx_match display_regex line of
        None \<Rightarrow> ([], Ok st)
      | Some (m, _) \<Rightarrow>
          (let new_display_state = group m ''state'' in
           if new_display_state = current_display_state st then ([], Ok st)
           else
             bind ([], convert_timestamp (group m ''timestamp'')) (\<lambda>new_timestamp.
             bind (get_closest_event charge_events (last_display_switch st)) (\<lambda>e1.
             bind (get_closest_event charge_events new_timestamp) (\<lambda>e2.
               (let duration = total_seconds (new_timestamp - last_display_switch st);
                    consumption = snd e1 - snd e2
                in ((if duration > 300
                     then [(Stdout, IntervalLine (last_display_switch st) new_timestamp consumption
                              (py_trunc (duration / 3600)) (py_trunc (py_fmod duration 3600 / 60))
                              (if new_display_state = ''on'' then ''sleep'' else ''usage''))]
                     else []),
                    Ok (if new_display_state = ''on''
                        then st\<lparr>current_display_state := new_display_state,
                                total_consumption_with_display_off :=
                                  total_consumption_with_display_off st + consumption,
                                total_time_with_display_off :=
                                  total_time_with_display_off st + duration,
                                last_display_switch := new_timestamp\<rparr>
                        else st\<lparr>current_display_state := new_display_state,
                                total_consumption_with_display_on :=
                                  total_consumption_with_display_on st + consumption,
                                total_time_with_display_on :=
                                  total_time_with_display_on st + duration,
                                last_display_switch := new_timestamp\<rparr>))))))))"

fun walk :: "event list \<Rightarrow> walk_state \<Rightarrow> string list \<Rightarrow> outp \<times> walk_state res" where
  "walk charge_events st [] = ([], Ok st)"
| "walk charge_events st (line # rest) =
     bind (walk_step charge_events st line) (\<lambda>st'. walk charge_events st' rest)"

subsection \<open>Live battery charge\<close>

fun is_prefix :: "string \<Rightarrow> string \<Rightarrow> bool" where
  "is_prefix [] s = True"
| "is_prefix (c # w) [] = False"
| "is_prefix (c # w) (d # s) = (c = d \<and> is_prefix w s)"

fun contains :: "string \<Rightarrow> string \<Rightarrow> bool" where
  "contains w [] = is_prefix w []"
| "contains w (c # s) = (is_prefix w (c # s) \<or> contains w s)"

text \<open>
  \<^verbatim>\<open>line.split()\<close> on bytes splits at runs of the six ASCII white-space bytes
  and drops empty pieces.
\<close>

definition is_ascii_space :: "char \<Rightarrow> bool" where
  "is_ascii_space c = (let n = (of_char c :: nat) in (9 \<le> n \<and> n \<le> 13) \<or> n = 32)"

function split_ws :: "string \<Rightarrow> string list" where
  "split_ws s =
     (let s1 = dropWhile is_ascii_space s in
      if s1 = [] then []
      else takeWhile (\<lambda>c. \<not> is_ascii_space c) s1
           # split_ws (dropWhile (\<lambda>c. \<not> is_ascii_space c) s1))"
  by pat_completeness auto
termination
proof (relation "measure length")
  fix s s1 :: string
  assume s1: "s1 = dropWhile is_ascii_space s" and ne: "s1 \<noteq> []"
  from ne have "\<not> is_ascii_space (hd s1)" unfolding s1 by (rule hd_dropWhile)
  with ne have "length (dropWhile (\<lambda>c. \<not> is_ascii_space c) s1) < length s1"
    by (cases s1) (simp_all add: length_dropWhile_le le_imp_less_Suc)
  moreover from s1 have "length s1 \<le> length s" by (simp add: length_dropWhile_le)
  ultimately show "(dropWhile (\<lambda>c. \<not> is_ascii_space c) s1, s) \<in> measure length"
    by simp
qed simp

declare split_ws.simps [simp del]

text \<open>
  \<^verbatim>\<open>int(token)\<close> on a token without white space: an optional sign, then decimal
  digits, where single underscores may stand between digits; anything else raises
  \<^verbatim>\<open>ValueError\<close>.
\<close>

fun digits_ok :: "bool \<Rightarrow> string \<Rightarrow> bool" where
  "digits_ok after_digit [] = after_digit"
| "digits_ok after_digit (c # s) =
     (if is_digit c then digits_ok True s
      else c = CHR ''_'' \<and> after_digit \<and> digits_ok False s)"

definition py_int :: "string \<Rightarrow> int res" where
  "py_int tok =
     (let neg = (case tok of c # _ \<Rightarrow> c = CHR ''-'' | [] \<Rightarrow> False);
          body = (case tok of c # t \<Rightarrow> (if c = CHR ''-'' \<or> c = CHR ''+'' then t else tok) | [] \<Rightarrow> [])
      in if digits_ok False body
         then Ok ((if neg then - 1 else 1) * int_of_digits (filter (\<lambda>c. c \<noteq> CHR ''_'') body))
         else Raise ValueError)"

text \<open>
  \<^verbatim>\<open>get_current_charge()\<close> over the lines that \<^verbatim>\<open>ioreg\<close> printed. A line that
  contains \<^verbatim>\<open>CurrentCapacity\<close> has at least one token, so \<^verbatim>\<open>[-1]\<close> is in range.
\<close>

fun get_current_charge :: "string list \<Rightarrow> outp \<times> int res" where
  "get_current_charge [] = ([(Stdout, Text ''Could not read current battery capacity'')], Exit 1)"
| "get_current_charge (line # rest) =
     (if contains ''CurrentCapacity'' line then ([], py_int (last (split_ws line)))
      else get_current_charge rest)"

subsection \<open>Open-ended tail and report\<close>

text \<open>
  The block under \<^verbatim>\<open>if end_index == len(pmset_lines)\<close>. The clock is read
  twice: \<open>now1\<close> for the duration, \<open>now2\<close> for the printed line.
\<close>

definition tail :: "event list \<Rightarrow> datetime \<Rightarrow> datetime \<Rightarrow> string list \<Rightarrow> walk_state
    \<Rightarrow> outp \<times> walk_state res" where
  "tail charge_events now1 now2 ioreg st =
     (let duration = total_seconds (now1 - last_display_switch st) in
      bind (get_closest_event charge_events (last_display_switch st)) (\<lambda>e.
      bind (get_current_charge ioreg) (\<lambda>current_charge.
        (let consumption = snd e - current_charge
         in ([(Stdout, IntervalLine (last_display_switch st) now2 consumption
                 (py_trunc (duration / 3600)) (py_trunc (py_fmod duration 3600 / 60)) ''usage'')],
             Ok (st\<lparr>total_consumption_with_display_on :=
                       total_consumption_with_display_on st + consumption,
                     total_time_with_display_on :=
                       total_time_with_display_on st + duration\<rparr>))))))"

definition report :: "datetime \<Rightarrow> int \<Rightarrow> walk_state \<Rightarrow> outp" where
  "report start_ts start_chg st =
     (let rate_with_display_on =
            (if total_time_with_display_on st > 0
             then of_int (total_consumption_with_display_on st) / (total_time_with_display_on st / 3600)
             else 0);
          rate_with_display_off =
            (if total_time_with_display_off st > 0
             then of_int (total_consumption_with_display_off st) / (total_time_with_display_off st / 3600)
             else 0)
      in [(Stdout, Text (CHR 0x0A # ''Summary:'')),
          (Stdout, SummaryStart start_ts start_chg),
          (Stdout, SummaryTotal (total_consumption_with_display_on st)
                     (py_trunc (total_time_with_display_on st / 3600))
                     (py_trunc (py_fmod (total_time_with_display_on st) 3600 / 60)) ''active usage''),
          (Stdout, SummaryTotal (total_consumption_with_display_off st)
                     (py_trunc (total_time_with_display_off st / 3600))
                     (py_trunc (py_fmod (total_time_with_display_off st) 3600 / 60)) ''sleep''),
          (Stdout, Text (CHR 0x0A # ''Statistics:'')),
          (Stdout, RateLine rate_with_display_on ''usage''),
          (Stdout, RateLine rate_with_display_off ''sleep'')])"

subsection \<open>The whole pass\<close>

text \<open>
  \<^verbatim>\<open>process_lines(pmset_lines)\<close>, with what it reads from outside as further
  arguments: the two readings of the clock and the lines printed by \<^verbatim>\<open>ioreg\<close>.
  The slice \<^verbatim>\<open>pmset_lines[start_index:end_index]\<close> is empty when
  \<open>end_index \<le> start_index\<close>. The three start values are set whenever the scan
  is left by \<^verbatim>\<open>break\<close>; the last case, where \<^verbatim>\<open>start_index - 1\<close> would raise
  \<^verbatim>\<open>TypeError\<close>, is never reached.
\<close>

definition process_lines :: "string list \<Rightarrow> datetime \<Rightarrow> datetime \<Rightarrow> string list \<Rightarrow> outp \<times> unit res" where
  "process_lines pmset_lines now1 now2 ioreg =
     bind (find_boundary pmset_lines) (\<lambda>b.
     bind (find_display_state pmset_lines (start_index b)) (\<lambda>start_display_state.
       (case (start_index b, start_charge b, start_timestamp b) of
          (Some start_idx, Some start_chg, Some start_ts) \<Rightarrow>
            bind ([], charge_events_from pmset_lines start_idx) (\<lambda>charge_events.
            bind (walk charge_events
                    \<lparr>current_display_state = start_display_state,
                     last_display_switch = start_ts,
                     total_time_with_display_on = 0,
                     total_time_with_display_off = 0,
                     total_consumption_with_display_on = 0,
                     total_consumption_with_display_off = 0\<rparr>
                    (take (end_index b - start_idx) (drop start_idx pmset_lines))) (\<lambda>st.
            bind (if end_index b = length pmset_lines
                  then tail charge_events now1 now2 ioreg st else ([], Ok st)) (\<lambda>st'.
              (report start_ts start_chg st', Ok ()))))
        | _ \<Rightarrow> ([], Raise TypeError))))"

text \<open>
  \<^verbatim>\<open>main()\<close> followed by \<^verbatim>\<open>sys.exit(0)\<close>; \<open>pmset_lines\<close> stands for the lines
  obtained from \<^verbatim>\<open>pmset\<close> or from the file. Only the usage message names
  \<^verbatim>\<open>sys.stderr\<close>.
\<close>

definition main :: "string list \<Rightarrow> string list \<Rightarrow> datetime \<Rightarrow> datetime \<Rightarrow> string list \<Rightarrow> outp \<times> unit res" where
  "main argv pmset_lines now1 now2 ioreg =
     (if length argv > 2 then ([(Stderr, Usage (argv ! 0))], Exit 2)
      else bind (process_lines pmset_lines now1 now2 ioreg) (\<lambda>_. ([], Exit 0)))"

section \<open>Notions used to state the claims\<close>

text \<open>
  The power source of a line as the backward scan reads it:
  \<^verbatim>\<open>charge_regex.match(line)\<close> and then \<^verbatim>\<open>match["type"]\<close>.
\<close>

definition charge_type :: "string \<Rightarrow> string option" where
  "charge_type line = map_option (\<lambda>(m, _). group m ''type'') (rx_match charge_regex line)"

definition is_ac :: "string \<Rightarrow> bool" where
  "is_ac line = (charge_type line = Some ''AC'')"

definition is_batt :: "string \<Rightarrow> bool" where
  "is_batt line = (case charge_type line of None \<Rightarrow> False | Some t \<Rightarrow> t \<noteq> ''AC'')"

text \<open>Some AC charge line lies earlier in the log than some battery charge line.\<close>

fun ac_before_batt :: "string list \<Rightarrow> bool" where
  "ac_before_batt [] = False"
| "ac_before_batt (l # ls) = ((is_ac l \<and> list_ex is_batt ls) \<or> ac_before_batt ls)"

text \<open>
  The same seen from the end of the log, as the backward scan meets the lines:
  some battery charge line comes before some AC charge line.
\<close>

fun batt_before_ac :: "string list \<Rightarrow> bool" where
  "batt_before_ac [] = False"
| "batt_before_ac (l # ls) = ((is_batt l \<and> list_ex is_ac ls) \<or> batt_before_ac ls)"

text \<open>
  The timestamps of the display lines of a window, in order; whether each of them
  names a real date; and whether the display states alternate, starting from a
  state other than \<open>cur\<close>.
\<close>

fun display_times :: "string list \<Rightarrow> datetime list" where
  "display_times [] = []"
| "display_times (l # ls) =
     (case rx_match display_regex l of
        None \<Rightarrow> display_times ls
      | Some (m, _) \<Rightarrow>
          (case convert_timestamp (group m ''timestamp'') of
             Ok ts \<Rightarrow> ts # display_times ls
           | Exit k \<Rightarrow> display_times ls
           | Raise e \<Rightarrow> display_times ls))"

fun valid_display_times :: "string list \<Rightarrow> bool" where
  "valid_display_times [] = True"
| "valid_display_times (l # ls) =
     (case rx_match display_regex l of
        None \<Rightarrow> valid_display_times ls
      | Some (m, _) \<Rightarrow>
          (case convert_timestamp (group m ''timestamp'') of
             Ok ts \<Rightarrow> valid_display_times ls
           | Exit k \<Rightarrow> False
           | Raise e \<Rightarrow> False))"

fun alternating :: "string \<Rightarrow> string list \<Rightarrow> bool" where
  "alternating cur [] = True"
| "alternating cur (l # ls) =
     (case rx_match display_regex l of
        None \<Rightarrow> alternating cur ls
      | Some (m, _) \<Rightarrow> group m ''state'' \<noteq> cur \<and> alternating (group m ''state'') ls)"

text \<open>
  Two lines that differ at most in the UTC offset: they are the same line, or both
  begin with a timestamp, a white-space character and an offset (a sign and four
  digits) that is followed by white space or ends the line, and they agree
  everywhere outside the five characters of the offset.
\<close>

definition is_sign :: "char \<Rightarrow> bool" where
  "is_sign c = (c = CHR ''+'' \<or> c = CHR ''-'')"

definition has_offset :: "string \<Rightarrow> bool" where
  "has_offset l =
     (25 \<le> length l \<and> timestamp_shape (take 19 l) \<and> is_space (l ! 19) \<and> is_sign (l ! 20)
      \<and> list_all is_digit (take 4 (drop 21 l))
      \<and> (drop 25 l = [] \<or> is_space (l ! 25)))"

definition offset_variant :: "string \<Rightarrow> string \<Rightarrow> bool" where
  "offset_variant l1 l2 =
     (l1 = l2 \<or> (has_offset l1 \<and> has_offset l2 \<and> take 20 l1 = take 20 l2 \<and> drop 25 l1 = drop 25 l2))"

text \<open>
  The same for whole texts, as needed for \<^verbatim>\<open>findall\<close> on the joined lines: the
  texts agree except inside blocks made of a sign and four digits that stand
  after a white-space character and before a character that is neither a digit
  nor a dash (or before the end).
\<close>

definition no_digit_or_dash :: "string \<Rightarrow> bool" where
  "no_digit_or_dash s = (case s of [] \<Rightarrow> True | c # _ \<Rightarrow> \<not> is_digit c \<and> c \<noteq> CHR ''-'')"

inductive ovar :: "string \<Rightarrow> string \<Rightarrow> bool" where
  ovar_Nil: "ovar [] []"
| ovar_same: "ovar s t \<Longrightarrow> ovar (c # s) (c # t)"
| ovar_zone: "ovar s t \<Longrightarrow> is_space w \<Longrightarrow> is_sign g1 \<Longrightarrow> is_sign g2
    \<Longrightarrow> length d1 = 4 \<Longrightarrow> length d2 = 4 \<Longrightarrow> list_all is_digit d1 \<Longrightarrow> list_all is_digit d2
    \<Longrightarrow> no_digit_or_dash s \<Longrightarrow> ovar (w # g1 # d1 @ s) (w # g2 # d2 @ t)"

text \<open>
  Positions inside such a block: \<open>zd n\<close> with \<open>n\<close> of its digits still ahead,
  \<open>zs\<close> at its sign.
\<close>

definition zd :: "nat \<Rightarrow> string \<Rightarrow> string \<Rightarrow> bool" where
  "zd n s1 s2 = (\<exists>d1 d2 s t. s1 = d1 @ s \<and> s2 = d2 @ t \<and> length d1 = n \<and> length d2 = n
     \<and> list_all is_digit d1 \<and> list_all is_digit d2 \<and> ovar s t \<and> no_digit_or_dash s)"

definition zs :: "string \<Rightarrow> string \<Rightarrow> bool" where
  "zs s1 s2 = (\<exists>g1 g2 u1 u2. s1 = g1 # u1 \<and> s2 = g2 # u2 \<and> is_sign g1 \<and> is_sign g2 \<and> zd 4 u1 u2)"

definition anywhere :: "string \<Rightarrow> string \<Rightarrow> bool" where
  "anywhere s1 s2 = (ovar s1 s2 \<or> zs s1 s2 \<or> (\<exists>n. 1 \<le> n \<and> n \<le> 4 \<and> zd n s1 s2))"

text \<open>
  A pattern behaves alike on two related texts: from texts related by \<open>P\<close> it
  yields, in the same order, the same captures and remainders related by \<open>Q\<close>;
  for \<open>simE\<close> it also consumes the same text.
\<close>

definition sim :: "(string \<Rightarrow> string \<Rightarrow> bool) \<Rightarrow> rx \<Rightarrow> (string \<Rightarrow> string \<Rightarrow> bool) \<Rightarrow> bool" where
  "sim P r Q = (\<forall>s1 s2 c. P s1 s2 \<longrightarrow>
     list_all2 (\<lambda>x y. fst x = fst y \<and> Q (snd x) (snd y)) (rx_run r s1 c) (rx_run r s2 c))"

definition simE :: "(string \<Rightarrow> string \<Rightarrow> bool) \<Rightarrow> rx \<Rightarrow> (string \<Rightarrow> string \<Rightarrow> bool) \<Rightarrow> bool" where
  "simE P r Q = (\<forall>s1 s2 c. P s1 s2 \<longrightarrow>
     list_all2 (\<lambda>x y. fst x = fst y \<and> Q (snd x) (snd y)
                  \<and> (\<exists>p. s1 = p @ snd x \<and> s2 = p @ snd y)) (rx_run r s1 c) (rx_run r s2 c))"

section \<open>Properties of the analysis\<close>

lemma bisect_left_loop_done: "\<not> lo < hi \<Longrightarrow> bisect_left_loop a x lo hi = lo"
  by (subst bisect_left_loop.simps) simp

lemma bisect_left_loop_step:
  "lo < hi \<Longrightarrow> bisect_left_loop a x lo hi =
     (if a ! ((lo + hi) div 2) < x then bisect_left_loop a x ((lo + hi) div 2 + 1) hi
      else bisect_left_loop a x lo ((lo + hi) div 2))"
  by (subst bisect_left_loop.simps) (simp add: Let_def)

lemma bisect_left_loop_bounds:
  "lo \<le> hi \<Longrightarrow> lo \<le> bisect_left_loop a x lo hi \<and> bisect_left_loop a x lo hi \<le> hi"
proof (induction a x lo hi rule: bisect_left_loop.induct)
  case (1 a x lo hi)
  show ?case
  proof (cases "lo < hi")
    case False
    with "1.prems" show ?thesis by (simp add: bisect_left_loop_done)
  next
    case True
    let ?mid = "(lo + hi) div 2"
    from True have m: "lo \<le> ?mid" "?mid < hi" by simp_all
    show ?thesis
    proof (cases "a ! ?mid < x")
      case lt: True
      from "1.IH"(1)[OF True refl lt] m
      have "?mid + 1 \<le> bisect_left_loop a x (?mid + 1) hi \<and> bisect_left_loop a x (?mid + 1) hi \<le> hi"
        by simp
      with True lt m show ?thesis
        by (simp add: bisect_left_loop_step)
    next
      case ge: False
      from "1.IH"(2)[OF True refl ge] m
      have "lo \<le> bisect_left_loop a x lo ?mid \<and> bisect_left_loop a x lo ?mid \<le> ?mid"
        by simp
      with True ge m show ?thesis
        by (simp add: bisect_left_loop_step)
    qed
  qed
qed

lemma bisect_left_loop_spec:
  assumes "sorted a" "lo \<le> hi" "hi \<le> length a"
    and "\<forall>i<lo. a ! i < x" and "\<forall>i. hi \<le> i \<and> i < length a \<longrightarrow> x \<le> a ! i"
  shows "(\<forall>i < bisect_left_loop a x lo hi. a ! i < x) \<and>
         (\<forall>i. bisect_left_loop a x lo hi \<le> i \<and> i < length a \<longrightarrow> x \<le> a ! i)"
  using assms
proof (induction a x lo hi rule: bisect_left_loop.induct)
  case (1 a x lo hi)
  show ?case
  proof (cases "lo < hi")
    case False
    with "1.prems" have "lo = hi" by simp
    with "1.prems" False show ?thesis by (simp add: bisect_left_loop_done)
  next
    case True
    let ?mid = "(lo + hi) div 2"
    from True "1.prems" have m: "lo \<le> ?mid" "?mid < hi" "?mid < length a" by simp_all
    show ?thesis
    proof (cases "a ! ?mid < x")
      case lt: True
      have below: "\<forall>i<?mid + 1. a ! i < x"
      proof (intro allI impI)
        fix i assume "i < ?mid + 1"
        then have "i \<le> ?mid" by simp
        with \<open>sorted a\<close> m have "a ! i \<le> a ! ?mid" by (simp add: sorted_nth_mono)
        with lt show "a ! i < x" by simp
      qed
      from m have "?mid + 1 \<le> hi" by simp
      from "1.IH"(1)[OF True refl lt \<open>sorted a\<close> this \<open>hi \<le> length a\<close> below "1.prems"(5)]
      show ?thesis using True lt
        by (simp add: bisect_left_loop_step)
    next
      case ge: False
      have above: "\<forall>i. ?mid \<le> i \<and> i < length a \<longrightarrow> x \<le> a ! i"
      proof (intro allI impI)
        fix i assume "?mid \<le> i \<and> i < length a"
        with \<open>sorted a\<close> have "a ! ?mid \<le> a ! i" by (simp add: sorted_nth_mono)
        with ge show "x \<le> a ! i" by simp
      qed
      from m have "?mid \<le> length a" by simp
      from "1.IH"(2)[OF True refl ge \<open>sorted a\<close> m(1) this "1.prems"(4) above]
      show ?thesis using True ge
        by (simp add: bisect_left_loop_step)
    qed
  qed
qed

lemma bisect_left_le_length: "bisect_left a x \<le> length a"
  using bisect_left_loop_bounds[of 0 "length a" a x] by (simp add: bisect_left_def)

lemma bisect_left_below:
  "sorted a \<Longrightarrow> i < bisect_left a x \<Longrightarrow> a ! i < x"
  using bisect_left_loop_spec[of a 0 "length a" x] by (simp add: bisect_left_def)

lemma bisect_left_above:
  "sorted a \<Longrightarrow> bisect_left a x \<le> i \<Longrightarrow> i < length a \<Longrightarrow> x \<le> a ! i"
  using bisect_left_loop_spec[of a 0 "length a" x] by (simp add: bisect_left_def)

lemma bisect_left_eqI:
  assumes "sorted a" "p \<le> length a" "\<forall>i<p. a ! i < x"
    and "\<forall>i. p \<le> i \<and> i < length a \<longrightarrow> x \<le> a ! i"
  shows "bisect_left a x = p"
proof (rule ccontr)
  assume ne: "bisect_left a x \<noteq> p"
  let ?b = "bisect_left a x"
  have bl: "?b \<le> length a" by (rule bisect_left_le_length)
  show False
  proof (cases "?b < p")
    case True
    with assms have "a ! ?b < x" by simp
    moreover from True assms have "?b < length a" by simp
    then have "x \<le> a ! ?b" using bisect_left_above[OF \<open>sorted a\<close>, of x ?b] by simp
    ultimately show False by simp
  next
    case False
    with ne have lt: "p < ?b" by simp
    then have "a ! p < x" using bisect_left_below[OF \<open>sorted a\<close>] by simp
    moreover from lt bl assms have "x \<le> a ! p" by simp
    ultimately show False by simp
  qed
qed

lemma total_seconds_less [simp]: "total_seconds a < total_seconds b \<longleftrightarrow> a < b"
  by (simp add: total_seconds_def divide_less_cancel)

lemma total_seconds_pos [simp]: "0 < total_seconds a \<longleftrightarrow> 0 < a"
  by (simp add: total_seconds_def)

lemma get_closest_event_pos0:
  "events \<noteq> [] \<Longrightarrow> bisect_left (map fst events) q = 0 \<Longrightarrow> get_closest_event events q = ([], Ok (hd events))"
  by (cases events) (simp_all add: get_closest_event_def)

lemma get_closest_event_poslen:
  "events \<noteq> [] \<Longrightarrow> bisect_left (map fst events) q = length events \<Longrightarrow> get_closest_event events q = ([], Ok (last events))"
  by (simp add: get_closest_event_def)

lemma get_closest_event_mid:
  "0 < p \<Longrightarrow> p < length events \<Longrightarrow> bisect_left (map fst events) q = p \<Longrightarrow>
   snd (get_closest_event events q) =
     Ok (if q - fst (events ! (p - 1)) < fst (events ! p) - q then events ! (p - 1) else events ! p)"
  by (simp add: get_closest_event_def Let_def)

lemma get_closest_event_exact:
  assumes ne: "events \<noteq> []" and s: "sorted (map fst events)" and i: "i < length events"
  shows "\<exists>j\<le>i. fst (events ! j) = fst (events ! i) \<and> (\<forall>k<j. fst (events ! k) < fst (events ! i))
           \<and> snd (get_closest_event events (fst (events ! i))) = Ok (events ! j)"
proof -
  let ?ts = "map fst events" and ?q = "fst (events ! i)"
  let ?p = "bisect_left ?ts ?q"
  have pi: "?p \<le> i"
  proof (rule ccontr)
    assume "\<not> ?p \<le> i"
    then have "i < ?p" by simp
    from bisect_left_below[OF s this] i show False by simp
  qed
  with i have pl: "?p < length events" by simp
  have ge: "?q \<le> fst (events ! ?p)"
    using bisect_left_above[OF s, of ?q ?p] pl by simp
  have le: "fst (events ! ?p) \<le> ?q"
    using sorted_nth_mono[OF s pi] i pl by simp
  have eq: "fst (events ! ?p) = ?q" using ge le by simp
  have below: "\<forall>k<?p. fst (events ! k) < ?q"
  proof (intro allI impI)
    fix k assume k: "k < ?p"
    from bisect_left_below[OF s k] k pl show "fst (events ! k) < ?q" by simp
  qed
  have res: "snd (get_closest_event events ?q) = Ok (events ! ?p)"
  proof (cases "?p = 0")
    case True
    with ne show ?thesis by (simp add: get_closest_event_pos0 hd_conv_nth)
  next
    case False
    then have p0: "0 < ?p" by simp
    from below p0 have "fst (events ! (?p - 1)) < ?q" by simp
    with get_closest_event_mid[OF p0 pl refl] eq show ?thesis by simp
  qed
  from pi eq below res show ?thesis by blast
qed

lemma get_closest_event_before:
  assumes ne: "events \<noteq> []" and s: "sorted (map fst events)" and q: "q \<le> fst (hd events)"
  shows "get_closest_event events q = ([], Ok (hd events))"
proof -
  have "bisect_left (map fst events) q = 0"
  proof (rule bisect_left_eqI[OF s])
    show "\<forall>i. 0 \<le> i \<and> i < length (map fst events) \<longrightarrow> q \<le> map fst events ! i"
    proof (intro allI impI)
      fix i assume "0 \<le> i \<and> i < length (map fst events)"
      then have i: "i < length events" by simp
      from sorted_nth_mono[OF s, of 0 i] i ne have "fst (hd events) \<le> fst (events ! i)"
        by (simp add: hd_conv_nth)
      with q i show "q \<le> map fst events ! i" by simp
    qed
  qed simp_all
  with ne show ?thesis by (rule get_closest_event_pos0)
qed

lemma get_closest_event_after:
  assumes ne: "events \<noteq> []" and s: "sorted (map fst events)" and q: "fst (last events) < q"
  shows "get_closest_event events q = ([], Ok (last events))"
proof -
  have "bisect_left (map fst events) q = length (map fst events)"
  proof (rule bisect_left_eqI[OF s])
    show "\<forall>i<length (map fst events). map fst events ! i < q"
    proof (intro allI impI)
      fix i assume "i < length (map fst events)"
      then have i: "i < length events" by simp
      from sorted_nth_mono[OF s, of i "length events - 1"] i ne have "fst (events ! i) \<le> fst (last events)"
        by (simp add: last_conv_nth)
      with q i show "map fst events ! i < q" by simp
    qed
  qed simp_all
  with ne show ?thesis by (simp add: get_closest_event_poslen)
qed

lemma bisect_left_between:
  assumes s: "sorted (map fst events)" and i: "0 < i" "i < length events"
    and lo: "fst (events ! (i - 1)) < q" and hi: "q \<le> fst (events ! i)"
  shows "bisect_left (map fst events) q = i"
proof (rule bisect_left_eqI[OF s])
  show "i \<le> length (map fst events)" using i by simp
  show "\<forall>k<i. map fst events ! k < q"
  proof (intro allI impI)
    fix k assume k: "k < i"
    from sorted_nth_mono[OF s, of k "i - 1"] k i have "fst (events ! k) \<le> fst (events ! (i - 1))" by simp
    with lo k i show "map fst events ! k < q" by simp
  qed
  show "\<forall>k. i \<le> k \<and> k < length (map fst events) \<longrightarrow> q \<le> map fst events ! k"
  proof (intro allI impI)
    fix k assume k: "i \<le> k \<and> k < length (map fst events)"
    from sorted_nth_mono[OF s, of i k] k have "fst (events ! i) \<le> fst (events ! k)" by simp
    with hi k show "q \<le> map fst events ! k" by simp
  qed
qed

lemma get_closest_event_mid_full:
  "0 < p \<Longrightarrow> p < length events \<Longrightarrow> bisect_left (map fst events) q = p \<Longrightarrow>
   get_closest_event events q =
     ((if 600 < min (total_seconds (fst (events ! p) - q)) (total_seconds (q - fst (events ! (p - 1))))
       then [(Stdout, GapWarning \<lfloor>min (total_seconds (fst (events ! p) - q)) (total_seconds (q - fst (events ! (p - 1)))) / 60\<rfloor>)]
       else []),
      Ok (if q - fst (events ! (p - 1)) < fst (events ! p) - q then events ! (p - 1) else events ! p))"
  by (simp add: get_closest_event_def Let_def)

lemma total_seconds_mono: "a \<le> b \<Longrightarrow> total_seconds a \<le> total_seconds b"
  by (simp add: total_seconds_def divide_right_mono)

lemma total_seconds_min: "min (total_seconds a) (total_seconds b) = total_seconds (min a b)"
  by (simp add: min_def total_seconds_mono) (metis total_seconds_less not_le order.asym)

lemma get_closest_event_nearest:
  assumes ne: "events \<noteq> []" and s: "sorted (map fst events)"
  shows "\<exists>r. snd (get_closest_event events q) = Ok r \<and> r \<in> set events
           \<and> (\<forall>e\<in>set events. \<bar>q - fst r\<bar> \<le> \<bar>q - fst e\<bar>)
           \<and> fst (get_closest_event events q) =
               (if fst (hd events) < q \<and> q \<le> fst (last events) \<and> 600 < total_seconds \<bar>q - fst r\<bar>
                then [(Stdout, GapWarning \<lfloor>total_seconds \<bar>q - fst r\<bar> / 60\<rfloor>)] else [])"
proof -
  let ?ts = "map fst events"
  have hd_le: "fst (hd events) \<le> fst e" if "e \<in> set events" for e
  proof -
    from that obtain k where k: "k < length events" "events ! k = e" by (auto simp: in_set_conv_nth)
    from sorted_nth_mono[OF s, of 0 k] k ne show ?thesis by (simp add: hd_conv_nth)
  qed
  have le_last: "fst e \<le> fst (last events)" if "e \<in> set events" for e
  proof -
    from that obtain k where k: "k < length events" "events ! k = e" by (auto simp: in_set_conv_nth)
    from sorted_nth_mono[OF s, of k "length events - 1"] k ne show ?thesis by (simp add: last_conv_nth)
  qed
  consider (before) "q \<le> fst (hd events)" | (after) "fst (last events) < q"
    | (mid) "fst (hd events) < q" "q \<le> fst (last events)" by linarith
  then show ?thesis
  proof cases
    case before
    have "\<forall>e\<in>set events. \<bar>q - fst (hd events)\<bar> \<le> \<bar>q - fst e\<bar>"
      using hd_le before by fastforce
    with get_closest_event_before[OF ne s before] ne before show ?thesis by simp
  next
    case after
    have "\<forall>e\<in>set events. \<bar>q - fst (last events)\<bar> \<le> \<bar>q - fst e\<bar>"
      using le_last after by fastforce
    moreover from hd_le[of "last events"] ne after have "fst (hd events) < q" by simp
    ultimately show ?thesis using get_closest_event_after[OF ne s after] ne after by simp
  next
    case mid
    let ?p = "bisect_left ?ts q"
    have p0: "0 < ?p"
    proof (rule ccontr)
      assume "\<not> 0 < ?p"
      then have "?p \<le> 0" by simp
      from bisect_left_above[OF s this] ne have "q \<le> fst (hd events)" by (simp add: hd_conv_nth)
      with mid show False by simp
    qed
    have pl: "?p < length events"
    proof (rule ccontr)
      assume "\<not> ?p < length events"
      with ne have "length events - 1 < ?p" by (cases events) simp_all
      from bisect_left_below[OF s this] ne have "fst (last events) < q" by (simp add: last_conv_nth)
      with mid show False by simp
    qed
    let ?b = "events ! (?p - 1)" and ?a = "events ! ?p"
    let ?r = "if q - fst ?b < fst ?a - q then ?b else ?a"
    have b: "fst ?b < q" using bisect_left_below[OF s, of "?p - 1" q] p0 pl by simp
    have a: "q \<le> fst ?a" using bisect_left_above[OF s, of q ?p] pl by simp
    have dist: "\<bar>q - fst ?r\<bar> = min (fst ?a - q) (q - fst ?b)" using a b by auto
    have near: "\<bar>q - fst ?r\<bar> \<le> \<bar>q - fst e\<bar>" if "e \<in> set events" for e
    proof -
      from that obtain k where k: "k < length events" "events ! k = e" by (auto simp: in_set_conv_nth)
      show ?thesis
      proof (cases "k < ?p")
        case True
        from sorted_nth_mono[OF s, of k "?p - 1"] True pl k have "fst e \<le> fst ?b" by auto
        with a b dist show ?thesis by linarith
      next
        case False
        from sorted_nth_mono[OF s, of ?p k] False k have "fst ?a \<le> fst e" by auto
        with a b dist show ?thesis by linarith
      qed
    qed
    have mem: "?r \<in> set events" using p0 pl by simp
    have full: "get_closest_event events q =
      ((if 600 < total_seconds \<bar>q - fst ?r\<bar>
        then [(Stdout, GapWarning \<lfloor>total_seconds \<bar>q - fst ?r\<bar> / 60\<rfloor>)] else []), Ok ?r)"
      unfolding dist using get_closest_event_mid_full[OF p0 pl refl] by (simp only: total_seconds_min)
    show ?thesis
      apply (rule exI[of _ ?r])
      using mem near mid full by simp
  qed
qed

lemma get_closest_event_nonempty:
  assumes "events \<noteq> []"
  shows "\<exists>e\<in>set events. snd (get_closest_event events q) = Ok e"
proof -
  let ?p = "bisect_left (map fst events) q"
  have pl: "?p \<le> length events" using bisect_left_le_length[of "map fst events" q] by simp
  consider "?p = 0" | "?p = length events" | "0 < ?p" "?p < length events" using pl by linarith
  then show ?thesis
  proof cases
    case 1 with assms show ?thesis by (simp add: get_closest_event_pos0)
  next
    case 2 with assms show ?thesis by (simp add: get_closest_event_poslen)
  next
    case 3
    from get_closest_event_mid[OF 3 refl] 3 show ?thesis by simp
  qed
qed

lemma bind_Ok [simp]: "bind (o1, Ok x) f = (o1 @ fst (f x), snd (f x))"
  by (simp add: bind_def split: prod.splits)

lemma bind_Exit [simp]: "bind (o1, Exit n) f = (o1, Exit n)"
  by (simp add: bind_def)

lemma bind_Raise [simp]: "bind (o1, Raise e) f = (o1, Raise e)"
  by (simp add: bind_def)

lemma fst_bind_subset:
  "set (fst (bind m f)) \<subseteq> set (fst m) \<union> (\<Union>x. set (fst (f x)))"
  by (cases m; cases "snd m") auto

lemma get_closest_event_stdout: "Stderr \<notin> fst ` set (fst (get_closest_event events q))"
  by (cases events) (auto simp: get_closest_event_def Let_def)

lemma bind_stdout:
  assumes "Stderr \<notin> fst ` set (fst m)" and "\<And>x. Stderr \<notin> fst ` set (fst (f x))"
  shows "Stderr \<notin> fst ` set (fst (bind m f))"
  using assms by (cases m; cases "snd m") (auto simp: image_Un)

lemma walk_step_stdout: "Stderr \<notin> fst ` set (fst (walk_step events st line))"
proof (cases "rx_match display_regex line")
  case None
  then show ?thesis by (simp add: walk_step_def)
next
  case (Some a)
  obtain m r where a: "a = (m, r)" by (cases a)
  show ?thesis
  proof (cases "group m ''state'' = current_display_state st")
    case True
    with Some a show ?thesis by (simp add: walk_step_def)
  next
    case False
    with Some a show ?thesis
      unfolding walk_step_def
      apply (simp add: Let_def del: bind_Ok bind_Exit bind_Raise split del: if_split)
      apply (rule bind_stdout, simp)
      apply (rule bind_stdout[OF get_closest_event_stdout])
      apply (rule bind_stdout[OF get_closest_event_stdout])
      apply auto
      done
  qed
qed

lemma walk_stdout: "Stderr \<notin> fst ` set (fst (walk events st ls))"
proof (induction ls arbitrary: st)
  case Nil
  then show ?case by simp
next
  case (Cons l ls)
  show ?case
  proof (cases "walk_step events st l")
    case (Pair o1 r1)
    with walk_step_stdout[of events st l] have o1: "Stderr \<notin> fst ` set o1" by simp
    show ?thesis
    proof (cases r1)
      case (Ok st')
      with Pair o1 Cons.IH[of st'] show ?thesis by (auto simp: image_Un)
    qed (use Pair o1 in auto)
  qed
qed

lemma get_current_charge_stdout: "Stderr \<notin> fst ` set (fst (get_current_charge ioreg))"
  by (induction ioreg) auto

lemma tail_stdout: "Stderr \<notin> fst ` set (fst (tail events now1 now2 ioreg st))"
proof (cases "get_closest_event events (last_display_switch st)")
  case (Pair o1 r1)
  with get_closest_event_stdout[of events "last_display_switch st"]
  have o1: "Stderr \<notin> fst ` set o1" by simp
  show ?thesis
  proof (cases r1)
    case (Ok e)
    show ?thesis
    proof (cases "get_current_charge ioreg")
      case p2: (Pair o2 r2)
      with get_current_charge_stdout[of ioreg] have o2: "Stderr \<notin> fst ` set o2" by simp
      from Pair Ok p2 o1 o2 show ?thesis
        by (cases r2) (auto simp: tail_def Let_def image_Un)
    qed
  qed (use Pair o1 in \<open>auto simp: tail_def Let_def\<close>)
qed

lemma find_boundary_stdout: "Stderr \<notin> fst ` set (fst (find_boundary ls))"
  by (auto simp: find_boundary_def split: res.splits prod.splits bool.splits)

lemma find_display_state_stdout: "Stderr \<notin> fst ` set (fst (find_display_state ls k))"
  by (auto simp: find_display_state_def split: option.splits)

lemma report_stdout: "Stderr \<notin> fst ` set (report t c st)"
  by (simp add: report_def Let_def)

lemma process_lines_stdout: "Stderr \<notin> fst ` set (fst (process_lines ls now1 now2 ioreg))"
  unfolding process_lines_def
  apply (rule bind_stdout[OF find_boundary_stdout])
  apply (rule bind_stdout[OF find_display_state_stdout])
  apply (simp split: option.splits)
  apply (intro conjI allI impI)
  apply (rule bind_stdout)
   apply simp
  apply (rule bind_stdout[OF walk_stdout])
  apply (rule bind_stdout)
   apply (simp add: tail_stdout)
  apply (simp add: report_stdout)
  done

lemma total_seconds_diff: "total_seconds (a - b) = total_seconds a - total_seconds b"
  by (simp add: total_seconds_def diff_divide_distrib)

lemma total_seconds_nonneg: "0 \<le> total_seconds a \<longleftrightarrow> 0 \<le> a"
  by (simp add: total_seconds_def)

lemma get_closest_event_Ok:
  assumes "events \<noteq> []"
  obtains g e where "get_closest_event events q = (g, Ok e)" "e \<in> set events"
  using get_closest_event_nonempty[OF assms, of q]
  by (metis prod.collapse)

lemma walk_step_skip:
  "rx_match display_regex line = None \<Longrightarrow> walk_step events st line = ([], Ok st)"
  by (simp add: walk_step_def)

lemma walk_step_same:
  "rx_match display_regex line = Some (m, r) \<Longrightarrow> group m ''state'' = current_display_state st
   \<Longrightarrow> walk_step events st line = ([], Ok st)"
  by (simp add: walk_step_def)

lemma walk_step_raise:
  "rx_match display_regex line = Some (m, r) \<Longrightarrow> group m ''state'' \<noteq> current_display_state st
   \<Longrightarrow> convert_timestamp (group m ''timestamp'') = Raise e
   \<Longrightarrow> walk_step events st line = ([], Raise e)"
  by (simp add: walk_step_def)

lemma walk_step_change:
  assumes "rx_match display_regex line = Some (m, r)"
    and "group m ''state'' \<noteq> current_display_state st"
    and "convert_timestamp (group m ''timestamp'') = Ok ts"
    and "get_closest_event events (last_display_switch st) = (g1, Ok e1)"
    and "get_closest_event events ts = (g2, Ok e2)"
  shows "walk_step events st line =
    (g1 @ g2 @
      (if 300 < total_seconds (ts - last_display_switch st)
       then [(Stdout, IntervalLine (last_display_switch st) ts (snd e1 - snd e2)
                (py_trunc (total_seconds (ts - last_display_switch st) / 3600))
                (py_trunc (py_fmod (total_seconds (ts - last_display_switch st)) 3600 / 60))
                (if group m ''state'' = ''on'' then ''sleep'' else ''usage''))]
       else []),
     Ok (if group m ''state'' = ''on''
         then st\<lparr>current_display_state := group m ''state'',
                 total_consumption_with_display_off :=
                   total_consumption_with_display_off st + (snd e1 - snd e2),
                 total_time_with_display_off :=
                   total_time_with_display_off st + total_seconds (ts - last_display_switch st),
                 last_display_switch := ts\<rparr>
         else st\<lparr>current_display_state := group m ''state'',
                 total_consumption_with_display_on :=
                   total_consumption_with_display_on st + (snd e1 - snd e2),
                 total_time_with_display_on :=
                   total_time_with_display_on st + total_seconds (ts - last_display_switch st),
                 last_display_switch := ts\<rparr>))"
  using assms by (simp add: walk_step_def Let_def)

lemma walk_step_telescope:
  assumes "walk_step events st line = (out, Ok st')"
  shows "(total_time_with_display_on st' + total_time_with_display_off st')
         - (total_time_with_display_on st + total_time_with_display_off st)
         = total_seconds (last_display_switch st' - last_display_switch st)"
proof (cases "rx_match display_regex line")
  case None
  with assms show ?thesis by (simp add: walk_step_skip total_seconds_def)
next
  case (Some a)
  obtain m r where a: "a = (m, r)" by (cases a)
  show ?thesis
  proof (cases "group m ''state'' = current_display_state st")
    case True
    with Some a assms show ?thesis by (simp add: walk_step_same total_seconds_def)
  next
    case False
    show ?thesis
    proof (cases "convert_timestamp (group m ''timestamp'')")
      case (Ok ts)
      obtain g1 r1 where 1: "get_closest_event events (last_display_switch st) = (g1, r1)"
        by (cases "get_closest_event events (last_display_switch st)")
      obtain g2 r2 where 2: "get_closest_event events ts = (g2, r2)"
        by (cases "get_closest_event events ts")
      from assms Some a False Ok 1 2 obtain e1 where e1: "r1 = Ok e1"
        by (cases r1) (simp_all add: walk_step_def Let_def)
      from assms Some a False Ok 1 2 e1 obtain e2 where e2: "r2 = Ok e2"
        by (cases r2) (simp_all add: walk_step_def Let_def)
      from walk_step_change[OF Some[unfolded a] False Ok 1[unfolded e1] 2[unfolded e2]] assms
      show ?thesis by (auto split: if_splits)
    next
      case (Exit k)
      with Some a False assms show ?thesis by (simp add: walk_step_def)
    next
      case (Raise e)
      with Some a False assms show ?thesis by (simp add: walk_step_def)
    qed
  qed
qed

lemma walk_Cons_Ok:
  assumes "walk events st (l # ls) = (out, Ok st')"
  obtains o1 o2 st1 where "walk_step events st l = (o1, Ok st1)" "walk events st1 ls = (o2, Ok st')"
    "out = o1 @ o2"
proof -
  obtain o1 r1 where 1: "walk_step events st l = (o1, r1)" by (cases "walk_step events st l")
  with assms obtain st1 where r1: "r1 = Ok st1" by (cases r1) simp_all
  obtain o2 r2 where 2: "walk events st1 ls = (o2, r2)" by (cases "walk events st1 ls")
  from assms 1 r1 2 have "out = o1 @ o2" "r2 = Ok st'" by simp_all
  with 1 r1 2 that show ?thesis by blast
qed

lemma walk_telescope:
  assumes "walk events st ls = (out, Ok st')"
  shows "(total_time_with_display_on st' + total_time_with_display_off st')
         - (total_time_with_display_on st + total_time_with_display_off st)
         = total_seconds (last_display_switch st' - last_display_switch st)"
  using assms
proof (induction ls arbitrary: st out)
  case Nil
  then show ?case by (simp add: total_seconds_def)
next
  case (Cons l ls)
  from Cons.prems obtain o1 o2 st1 where
    1: "walk_step events st l = (o1, Ok st1)" and 2: "walk events st1 ls = (o2, Ok st')"
    by (rule walk_Cons_Ok)
  from walk_step_telescope[OF 1] Cons.IH[OF 2] show ?case
    by (simp add: total_seconds_diff)
qed

lemma walk_step_OkE:
  assumes "walk_step events st l = (o1, Ok st1)"
  obtains (skip) "rx_match display_regex l = None" "st1 = st" "o1 = []"
  | (same) m r where "rx_match display_regex l = Some (m, r)"
      "group m ''state'' = current_display_state st" "st1 = st" "o1 = []"
  | (change) m r ts g1 e1 g2 e2 where "rx_match display_regex l = Some (m, r)"
      "group m ''state'' \<noteq> current_display_state st"
      "convert_timestamp (group m ''timestamp'') = Ok ts"
      "get_closest_event events (last_display_switch st) = (g1, Ok e1)"
      "get_closest_event events ts = (g2, Ok e2)"
proof (cases "rx_match display_regex l")
  case None
  with assms have "st1 = st" "o1 = []" by (simp_all add: walk_step_skip)
  with None show ?thesis by (rule skip)
next
  case (Some a)
  obtain m r where a: "a = (m, r)" by (cases a)
  show ?thesis
  proof (cases "group m ''state'' = current_display_state st")
    case True
    with Some a assms have "st1 = st" "o1 = []" by (simp_all add: walk_step_same)
    with Some[unfolded a] True show ?thesis by (rule same)
  next
    case False
    show ?thesis
    proof (cases "convert_timestamp (group m ''timestamp'')")
      case (Ok ts)
      obtain g1 r1 where 1: "get_closest_event events (last_display_switch st) = (g1, r1)"
        by (cases "get_closest_event events (last_display_switch st)")
      obtain g2 r2 where 2: "get_closest_event events ts = (g2, r2)"
        by (cases "get_closest_event events ts")
      from assms Some a False Ok 1 2 obtain e1 where e1: "r1 = Ok e1"
        by (cases r1) (simp_all add: walk_step_def Let_def)
      from assms Some a False Ok 1 2 e1 obtain e2 where e2: "r2 = Ok e2"
        by (cases r2) (simp_all add: walk_step_def Let_def)
      from change[OF Some[unfolded a] False Ok 1[unfolded e1] 2[unfolded e2]] show ?thesis .
    next
      case (Exit k)
      with Some a False assms show ?thesis by (simp add: walk_step_def)
    next
      case (Raise e)
      with Some a False assms show ?thesis by (simp add: walk_step_def)
    qed
  qed
qed

lemma walk_alternating:
  assumes "events \<noteq> []" "valid_display_times ls" "alternating (current_display_state st) ls"
  shows "\<exists>out st'. walk events st ls = (out, Ok st')
           \<and> last_display_switch st' = last (last_display_switch st # display_times ls)"
  using assms(2,3)
proof (induction ls arbitrary: st)
  case Nil
  then show ?case by simp
next
  case (Cons l ls)
  show ?case
  proof (cases "rx_match display_regex l")
    case None
    with Cons.prems have "valid_display_times ls" "alternating (current_display_state st) ls"
      by simp_all
    from Cons.IH[OF this] None show ?thesis by (simp add: walk_step_skip)
  next
    case (Some a)
    obtain m r where a: "a = (m, r)" by (cases a)
    from Cons.prems Some a have ne: "group m ''state'' \<noteq> current_display_state st"
      and alt: "alternating (group m ''state'') ls" by simp_all
    from Cons.prems Some a obtain ts where ts: "convert_timestamp (group m ''timestamp'') = Ok ts"
      and v: "valid_display_times ls"
      by (cases "convert_timestamp (group m ''timestamp'')") simp_all
    from \<open>events \<noteq> []\<close> obtain g1 e1
      where 1: "get_closest_event events (last_display_switch st) = (g1, Ok e1)"
      by (rule get_closest_event_Ok)
    from \<open>events \<noteq> []\<close> obtain g2 e2 where 2: "get_closest_event events ts = (g2, Ok e2)"
      by (rule get_closest_event_Ok)
    note w = walk_step_change[OF Some[unfolded a] ne ts 1 2]
    then obtain o1 st1 where st1: "walk_step events st l = (o1, Ok st1)"
      "current_display_state st1 = group m ''state''" "last_display_switch st1 = ts"
      by (cases "group m ''state'' = ''on''") simp_all
    from alt st1 have "alternating (current_display_state st1) ls" by simp
    from Cons.IH[OF v this] obtain o2 st' where
      "walk events st1 ls = (o2, Ok st')"
      "last_display_switch st' = last (last_display_switch st1 # display_times ls)" by blast
    with st1 Some a ts show ?thesis by simp
  qed
qed

lemma walk_time_mono:
  assumes "walk events st ls = (out, Ok st')"
    and "sorted (last_display_switch st # display_times ls)"
  shows "total_time_with_display_on st \<le> total_time_with_display_on st'
       \<and> total_time_with_display_off st \<le> total_time_with_display_off st'"
  using assms
proof (induction ls arbitrary: st out)
  case Nil
  then show ?case by simp
next
  case (Cons l ls)
  from Cons.prems(1) obtain o1 o2 st1 where
    1: "walk_step events st l = (o1, Ok st1)" and 2: "walk events st1 ls = (o2, Ok st')"
    by (rule walk_Cons_Ok)
  from 1 show ?case
  proof (cases rule: walk_step_OkE)
    case skip
    with Cons.prems(2) have "sorted (last_display_switch st1 # display_times ls)" by simp
    from Cons.IH[OF 2 this] skip show ?thesis by simp
  next
    case (same m r)
    with Cons.prems(2) have "sorted (last_display_switch st1 # display_times ls)"
      by (cases "convert_timestamp (group m ''timestamp'')") auto
    from Cons.IH[OF 2 this] same show ?thesis by simp
  next
    case (change m r ts g1 e1 g2 e2)
    note w = walk_step_change[OF change]
    from Cons.prems(2) change have le: "last_display_switch st \<le> ts"
      and s: "sorted (ts # display_times ls)" by simp_all
    from le have d: "0 \<le> total_seconds (ts - last_display_switch st)"
      by (simp add: total_seconds_nonneg)
    from w 1 have lds: "last_display_switch st1 = ts" by (auto split: if_splits)
    from w 1 d have step: "total_time_with_display_on st \<le> total_time_with_display_on st1
       \<and> total_time_with_display_off st \<le> total_time_with_display_off st1"
      by (auto split: if_splits)
    from Cons.IH[OF 2] s lds step show ?thesis by fastforce
  qed
qed

lemma convert_timestamp_result:
  "(\<exists>ts. convert_timestamp s = Ok ts) \<or> convert_timestamp s = Raise ValueError"
  by (simp add: convert_timestamp_def Let_def)

lemma convert_timestamp_cases:
  obtains ts where "convert_timestamp s = Ok ts" | "convert_timestamp s = Raise ValueError"
  using convert_timestamp_result[of s] by blast

lemma is_ac_not_batt: "is_ac l \<Longrightarrow> \<not> is_batt l"
  by (simp add: is_ac_def is_batt_def)

lemma scan_back_other:
  "rx_match charge_regex l = None \<Longrightarrow> scan_back (l # rest) i n st = scan_back rest (i + 1) n st"
  by simp

lemmas scan_back_Cons = scan_back.simps(2)

lemma not_charge_line: "rx_match charge_regex l = None \<Longrightarrow> \<not> is_ac l \<and> \<not> is_batt l"
  by (simp add: is_ac_def is_batt_def charge_type_def)

lemma scan_back_ac:
  "is_ac l \<Longrightarrow> scan_back (l # rest) i n st =
     (if seen_batt st then Ok (True, st) else scan_back rest (i + 1) n (st\<lparr>end_index := n - i - 1\<rparr>))"
  by (auto simp: is_ac_def charge_type_def Let_def split: option.splits)

lemma scan_back_batt:
  "is_batt l \<Longrightarrow> rx_match charge_regex l = Some (m, r) \<Longrightarrow> scan_back (l # rest) i n st =
     (case convert_timestamp (group m ''timestamp'') of
        Ok ts \<Rightarrow> scan_back rest (i + 1) n
                 (st\<lparr>start_index := Some (n - i),
                     start_charge := Some (int_of_digits (group m ''charge'')),
                     start_timestamp := Some ts, seen_batt := True\<rparr>)
      | Exit k \<Rightarrow> Exit k | Raise e \<Rightarrow> Raise e)"
  by (auto simp: is_batt_def charge_type_def Let_def split: option.splits)

lemma scan_back_outcome:
  "(\<exists>st'. scan_back xs i n st = Ok ((seen_batt st \<and> list_ex is_ac xs) \<or> batt_before_ac xs, st'))
   \<or> scan_back xs i n st = Raise ValueError"
proof (induction xs arbitrary: i st)
  case Nil
  then show ?case by simp
next
  case (Cons l xs)
  show ?case
  proof (cases "rx_match charge_regex l")
    case None
    from not_charge_line[OF None] Cons.IH[of "i + 1" st] None show ?thesis
      by (simp add: scan_back_other del: scan_back_Cons)
  next
    case (Some a)
    obtain m r where a: "a = (m, r)" by (cases a)
    show ?thesis
    proof (cases "is_ac l")
      case True
      note nb = is_ac_not_batt[OF True]
      show ?thesis
      proof (cases "seen_batt st")
        case seen: True
        with True show ?thesis by (simp add: scan_back_ac del: scan_back_Cons)
      next
        case False
        from Cons.IH[of "i + 1" "st\<lparr>end_index := n - i - 1\<rparr>"] False True nb
        show ?thesis by (simp add: scan_back_ac del: scan_back_Cons)
      qed
    next
      case False
      with Some a have b: "is_batt l" by (simp add: is_ac_def is_batt_def charge_type_def)
      show ?thesis
      proof (cases rule: convert_timestamp_cases[of "group m ''timestamp''"])
        case (1 ts)
        from Cons.IH[of "i + 1" "st\<lparr>start_index := Some (n - i),
                     start_charge := Some (int_of_digits (group m ''charge'')),
                     start_timestamp := Some ts, seen_batt := True\<rparr>"] 1 b False
        show ?thesis by (auto simp: scan_back_batt[OF b Some[unfolded a]] simp del: scan_back_Cons)
      next
        case 2
        with b show ?thesis by (simp add: scan_back_batt[OF b Some[unfolded a]] del: scan_back_Cons)
      qed
    qed
  qed
qed

lemma list_ex_rev: "list_ex P (rev xs) = list_ex P xs"
  by (simp add: list_ex_iff)

lemma batt_before_ac_snoc:
  "batt_before_ac (xs @ [l]) = (batt_before_ac xs \<or> (list_ex is_batt xs \<and> is_ac l))"
  by (induction xs) auto

lemma batt_before_ac_rev: "batt_before_ac (rev ls) = ac_before_batt ls"
  by (induction ls) (auto simp: batt_before_ac_snoc list_ex_rev)

lemma find_boundary_outcome:
  "(\<not> ac_before_batt ls \<longrightarrow>
      find_boundary ls =
        ([(Stdout, Text ''Could not determine when the PC was last unplugged from AC.'')], Exit 1)
      \<or> find_boundary ls = ([], Raise ValueError))
   \<and> (ac_before_batt ls \<longrightarrow>
      (\<exists>b. find_boundary ls = ([], Ok b)) \<or> find_boundary ls = ([], Raise ValueError))"
proof -
  let ?st = "\<lparr>start_index = None, start_charge = None, start_timestamp = None,
              seen_batt = False, end_index = length ls\<rparr>"
  from scan_back_outcome[of "rev ls" 0 "length ls" ?st]
  show ?thesis
    by (auto simp: find_boundary_def batt_before_ac_rev)
qed

lemma find_display_state_outcome:
  "(\<exists>s. find_display_state ls k = ([], Ok s))
   \<or> find_display_state ls k =
       ([(Stdout, Text ''Could not determine the state of the display when AC was unplugged.'')], Exit 1)"
  by (simp add: find_display_state_def split: option.splits)

lemma get_current_charge_outcome:
  "(\<exists>c. get_current_charge ioreg = ([], Ok c))
   \<or> get_current_charge ioreg = ([], Raise ValueError)
   \<or> get_current_charge ioreg = ([(Stdout, Text ''Could not read current battery capacity'')], Exit 1)"
  by (induction ioreg) (auto simp: py_int_def Let_def)

lemma find_boundary_cases:
  "(\<exists>b. find_boundary ls = ([], Ok b)) \<or> find_boundary ls = ([], Raise ValueError)
   \<or> find_boundary ls =
       ([(Stdout, Text ''Could not determine when the PC was last unplugged from AC.'')], Exit 1)"
  using find_boundary_outcome[of ls] by blast

lemma floor_rat_numeral_div [simp]: "\<lfloor>numeral a / numeral b :: rat\<rfloor> = numeral a div numeral b"
  by (metis floor_divide_of_int_eq of_int_numeral)

lemma floor_rat_one_div [simp]: "\<lfloor>1 / numeral b :: rat\<rfloor> = 1 div numeral b"
  by (metis floor_divide_of_int_eq of_int_1 of_int_numeral)

lemma takeWhile_append_length: "length (takeWhile P s) \<le> length (takeWhile P (s @ t))"
  by (induction s) auto

lemma rx_run_append:
  "(c, rest) \<in> set (rx_run r s caps) \<Longrightarrow> (c, rest @ t) \<in> set (rx_run r (s @ t) caps)"
proof (induction r arbitrary: s caps c rest)
  case (Lit w)
  from Lit have w: "take (length w) s = w" and r: "rest = drop (length w) s" and c: "c = caps"
    by (auto split: if_splits)
  from arg_cong[OF w, of length] have "length w \<le> length s" by simp
  with w r c show ?case by simp
next
  case (Rep cl lo hi)
  let ?n = "length (takeWhile (in_cls cl) s)" and ?n' = "length (takeWhile (in_cls cl) (s @ t))"
  let ?m = "case hi of None \<Rightarrow> ?n | Some h \<Rightarrow> min h ?n"
  let ?m' = "case hi of None \<Rightarrow> ?n' | Some h \<Rightarrow> min h ?n'"
  from Rep obtain k where k: "lo \<le> k" "k \<le> ?m" "rest = drop k s" "c = caps"
    by (auto simp: Let_def)
  have nn: "?n \<le> ?n'" by (rule takeWhile_append_length)
  then have mm: "?m \<le> ?m'" by (cases hi) auto
  have "?m \<le> ?n" by (cases hi) auto
  moreover have "?n \<le> length s" by (rule length_takeWhile_le)
  ultimately have "k \<le> length s" using k(2) by linarith
  with k have "rest @ t = drop k (s @ t)" by simp
  moreover from k mm have "k \<in> set (rev [lo..<Suc ?m'])" by auto
  ultimately show ?case using k(4) by (auto simp: Let_def)
next
  case (Cat a b)
  from Cat.prems obtain c1 r1 where 1: "(c1, r1) \<in> set (rx_run a s caps)"
    and 2: "(c, rest) \<in> set (rx_run b r1 c1)" by auto
  from Cat.IH(1)[OF 1] Cat.IH(2)[OF 2] show ?case by force
next
  case (Or a b)
  then show ?case by auto
next
  case (Grp name r)
  from Grp.prems obtain c' where 1: "(c', rest) \<in> set (rx_run r s caps)"
    and c: "c = (name, take (length s - length rest) s) # c'" by auto
  from Grp.IH[OF 1] have "(c', rest @ t) \<in> set (rx_run r (s @ t) caps)" .
  then have "((name, take (length (s @ t) - length (rest @ t)) (s @ t)) # c', rest @ t)
      \<in> set (rx_run (Grp name r) (s @ t) caps)" by force
  with c show ?case by simp
qed

lemma rx_match_append:
  assumes "rx_match r s \<noteq> None"
  shows "rx_match r (s @ t) \<noteq> None"
proof -
  from assms obtain c rest where "(c, rest) \<in> set (rx_run r s [])"
    by (cases "rx_run r s []") (auto simp: rx_match_def)
  from rx_run_append[OF this, of t] show ?thesis
    by (cases "rx_run r (s @ t) []") (auto simp: rx_match_def)
qed

lemma rx_findall_nonempty: "rx_match r s \<noteq> None \<Longrightarrow> rx_findall r s \<noteq> []"
  by (subst rx_findall.simps) (auto split: option.splits)

lemma join_lines_Cons: "\<exists>t. join_lines (l # ls) = l @ t"
  by (cases ls) auto

lemma events_of_length: "events_of ms = Ok es \<Longrightarrow> length es = length ms"
  by (induction ms arbitrary: es) (auto split: res.splits)

lemma charge_events_from_nonempty:
  assumes "charge_events_from ls k = Ok es" and "0 < k" and "k \<le> length ls"
    and "rx_match charge_regex (ls ! (k - 1)) \<noteq> None"
  shows "es \<noteq> []"
proof -
  from assms(2,3) have "drop (k - 1) ls = ls ! (k - 1) # drop k ls"
    by (metis Cons_nth_drop_Suc Suc_pred' less_eq_Suc_le)
  then obtain t where "join_lines (drop (k - 1) ls) = ls ! (k - 1) @ t"
    using join_lines_Cons by metis
  with rx_match_append[OF assms(4), of t]
  have "rx_findall charge_regex (join_lines (drop (k - 1) ls)) \<noteq> []"
    by (simp add: rx_findall_nonempty)
  with events_of_length[OF assms(1)[unfolded charge_events_from_def]] show ?thesis by auto
qed

lemma drop_rev_Cons:
  assumes "l # xs = drop i (rev ls)"
  shows "i < length ls \<and> l = ls ! (length ls - 1 - i) \<and> xs = drop (Suc i) (rev ls)"
proof -
  from assms have i: "i < length (rev ls)" by (cases "i < length (rev ls)") auto
  from Cons_nth_drop_Suc[OF i] assms have "l # xs = rev ls ! i # drop (Suc i) (rev ls)" by simp
  then have "l = rev ls ! i" "xs = drop (Suc i) (rev ls)" by simp_all
  with i show ?thesis by (simp add: rev_nth)
qed

lemma scan_back_start:
  assumes "scan_back xs i n st = Ok (True, st')" and "xs = drop i (rev ls)" and "n = length ls"
    and "seen_batt st \<longrightarrow>
           (\<exists>k c0 t0. start_index st = Some k \<and> start_charge st = Some c0
              \<and> start_timestamp st = Some t0 \<and> 0 < k \<and> k \<le> n
              \<and> rx_match charge_regex (ls ! (k - 1)) \<noteq> None)"
  shows "\<exists>k c0 t0. start_index st' = Some k \<and> start_charge st' = Some c0
              \<and> start_timestamp st' = Some t0 \<and> 0 < k \<and> k \<le> n
              \<and> rx_match charge_regex (ls ! (k - 1)) \<noteq> None"
  using assms
proof (induction xs arbitrary: i st)
  case Nil
  then show ?case by simp
next
  case (Cons l xs)
  from drop_rev_Cons[OF Cons.prems(2)] Cons.prems(3)
  have i: "i < n" and l: "l = ls ! (n - 1 - i)" and xs: "xs = drop (i + 1) (rev ls)" by simp_all
  show ?case
  proof (cases "rx_match charge_regex l")
    case None
    with Cons.prems(1) have "scan_back xs (i + 1) n st = Ok (True, st')"
      by (simp add: scan_back_other del: scan_back_Cons)
    from Cons.IH[OF this xs Cons.prems(3,4)] show ?thesis .
  next
    case (Some a)
    obtain m r where a: "a = (m, r)" by (cases a)
    show ?thesis
    proof (cases "is_ac l")
      case True
      show ?thesis
      proof (cases "seen_batt st")
        case seen: True
        with True Cons.prems(1) have "st' = st" by (simp add: scan_back_ac del: scan_back_Cons)
        with seen Cons.prems(4) show ?thesis by simp
      next
        case False
        with True Cons.prems(1)
        have "scan_back xs (i + 1) n (st\<lparr>end_index := n - i - 1\<rparr>) = Ok (True, st')"
          by (simp add: scan_back_ac del: scan_back_Cons)
        from Cons.IH[OF this xs Cons.prems(3)] False show ?thesis by simp
      qed
    next
      case False
      with Some a have b: "is_batt l" by (simp add: is_ac_def is_batt_def charge_type_def)
      note sb = scan_back_batt[OF b Some[unfolded a], of xs i n st]
      from Cons.prems(1) sb obtain ts where
        ts: "convert_timestamp (group m ''timestamp'') = Ok ts"
        by (cases "convert_timestamp (group m ''timestamp'')") simp_all
      let ?st2 = "st\<lparr>start_index := Some (n - i),
                     start_charge := Some (int_of_digits (group m ''charge'')),
                     start_timestamp := Some ts, seen_batt := True\<rparr>"
      from Cons.prems(1) sb ts have 2: "scan_back xs (i + 1) n ?st2 = Ok (True, st')" by simp
      from i l Some have "0 < n - i \<and> n - i \<le> n \<and> rx_match charge_regex (ls ! (n - i - 1)) \<noteq> None"
        by simp
      with Cons.IH[OF 2 xs Cons.prems(3)] show ?thesis by simp
    qed
  qed
qed

lemma find_boundary_start:
  assumes "find_boundary ls = (out, Ok b)"
  shows "\<exists>k c0 t0. start_index b = Some k \<and> start_charge b = Some c0
              \<and> start_timestamp b = Some t0 \<and> 0 < k \<and> k \<le> length ls
              \<and> rx_match charge_regex (ls ! (k - 1)) \<noteq> None"
proof -
  let ?st = "\<lparr>start_index = None, start_charge = None, start_timestamp = None,
              seen_batt = False, end_index = length ls\<rparr>"
  from assms have "scan_back (rev ls) 0 (length ls) ?st = Ok (True, b)"
    by (auto simp: find_boundary_def split: res.splits prod.splits bool.splits)
  from scan_back_start[OF this, of ls] show ?thesis by simp
qed

lemma events_of_raise: "events_of ms = Raise e \<Longrightarrow> e = ValueError"
proof (induction ms)
  case Nil
  then show ?case by simp
next
  case (Cons m ms)
  show ?case
  proof (cases rule: convert_timestamp_cases[of "group m ''timestamp''"])
    case (1 ts)
    with Cons show ?thesis by (cases "events_of ms") auto
  next
    case 2
    with Cons.prems show ?thesis by simp
  qed
qed

lemma walk_step_no_index_error:
  assumes "events \<noteq> []"
  shows "(\<exists>st'. snd (walk_step events st l) = Ok st') \<or> snd (walk_step events st l) = Raise ValueError"
proof (cases "rx_match display_regex l")
  case None
  then show ?thesis by (simp add: walk_step_skip)
next
  case (Some a)
  obtain m r where a: "a = (m, r)" by (cases a)
  show ?thesis
  proof (cases "group m ''state'' = current_display_state st")
    case True
    with Some a show ?thesis by (simp add: walk_step_same)
  next
    case False
    show ?thesis
    proof (cases rule: convert_timestamp_cases[of "group m ''timestamp''"])
      case (1 ts)
      from assms obtain g1 e1
        where g1: "get_closest_event events (last_display_switch st) = (g1, Ok e1)"
        by (rule get_closest_event_Ok)
      from assms obtain g2 e2 where g2: "get_closest_event events ts = (g2, Ok e2)"
        by (rule get_closest_event_Ok)
      from walk_step_change[OF Some[unfolded a] False 1 g1 g2] show ?thesis by simp
    next
      case 2
      with Some a False show ?thesis by (simp add: walk_step_raise)
    qed
  qed
qed

lemma walk_no_index_error:
  assumes "events \<noteq> []"
  shows "(\<exists>st'. snd (walk events st ls) = Ok st') \<or> snd (walk events st ls) = Raise ValueError"
proof (induction ls arbitrary: st)
  case Nil
  then show ?case by simp
next
  case (Cons l ls)
  obtain o1 r1 where w: "walk_step events st l = (o1, r1)" by (cases "walk_step events st l")
  from walk_step_no_index_error[OF assms, of st l] w
  consider st1 where "r1 = Ok st1" | "r1 = Raise ValueError" by auto
  then show ?case
  proof cases
    case 1
    with w Cons.IH[of st1] show ?thesis by simp
  next
    case 2
    with w show ?thesis by simp
  qed
qed

lemma get_current_charge_Ok:
  "snd (get_current_charge ioreg) = Ok c \<Longrightarrow> get_current_charge ioreg = ([], Ok c)"
  using get_current_charge_outcome[of ioreg] by auto

lemma tail_outcome:
  assumes "events \<noteq> []"
  shows "(\<exists>st'. snd (tail events now1 now2 ioreg st) = Ok st')
       \<or> snd (tail events now1 now2 ioreg st) = Raise ValueError
       \<or> snd (tail events now1 now2 ioreg st) = Exit 1"
proof -
  from assms obtain g e where g: "get_closest_event events (last_display_switch st) = (g, Ok e)"
    by (rule get_closest_event_Ok)
  from get_current_charge_outcome[of ioreg] g show ?thesis
    by (auto simp: tail_def Let_def)
qed

lemma process_lines_no_index_error:
  "snd (process_lines ls now1 now2 ioreg) \<noteq> Raise IndexError
   \<and> snd (process_lines ls now1 now2 ioreg) \<noteq> Raise TypeError"
proof (cases "find_boundary ls")
  case (Pair o1 r1)
  show ?thesis
  proof (cases r1)
    case (Ok b)
    from find_boundary_start[OF Pair[unfolded Ok]] obtain k c0 t0 where
      s: "start_index b = Some k" "start_charge b = Some c0" "start_timestamp b = Some t0"
      and k: "0 < k" "k \<le> length ls" "rx_match charge_regex (ls ! (k - 1)) \<noteq> None" by blast
    show ?thesis
    proof (cases "find_display_state ls (Some k)")
      case d: (Pair o2 r2)
      show ?thesis
      proof (cases r2)
        case ok2: (Ok sds)
        show ?thesis
        proof (cases "charge_events_from ls k")
          case ev: (Ok events)
          from charge_events_from_nonempty[OF ev k] have ne: "events \<noteq> []" .
          let ?st0 = "\<lparr>current_display_state = sds, last_display_switch = t0,
                     total_time_with_display_on = 0, total_time_with_display_off = 0,
                     total_consumption_with_display_on = 0,
                     total_consumption_with_display_off = 0\<rparr>"
          let ?w = "walk events ?st0 (take (end_index b - k) (drop k ls))"
          obtain o3 r3 where w: "?w = (o3, r3)" by (cases ?w)
          from walk_no_index_error[OF ne, of ?st0 "take (end_index b - k) (drop k ls)"] w
          consider st where "r3 = Ok st" | "r3 = Raise ValueError" by auto
          then show ?thesis
          proof cases
            case 1
            from tail_outcome[OF ne, of now1 now2 ioreg st]
            show ?thesis using Pair Ok s d ok2 ev w 1
              by (cases "tail events now1 now2 ioreg st")
                 (auto simp: process_lines_def)
          next
            case 2
            with Pair Ok s d ok2 ev w show ?thesis by (simp add: process_lines_def)
          qed
        next
          case (Exit n)
          with Pair Ok s d ok2 show ?thesis by (simp add: process_lines_def)
        next
          case (Raise e)
          from Raise have "e = ValueError"
            by (auto simp: charge_events_from_def dest: events_of_raise)
          with Raise Pair Ok s d ok2 show ?thesis by (simp add: process_lines_def)
        qed
      next
        case (Exit n)
        with Pair Ok s d show ?thesis by (simp add: process_lines_def)
      next
        case (Raise e)
        with find_display_state_outcome[of ls "Some k"] d show ?thesis by auto
      qed
    qed
  next
    case (Exit n)
    with Pair show ?thesis by (simp add: process_lines_def)
  next
    case (Raise e)
    with Pair find_boundary_cases[of ls] show ?thesis by (auto simp: process_lines_def)
  qed
qed

section \<open>The claims\<close>



text \<open>
  C2. The lookup does not tolerate the empty list: for every query it raises
  \<^verbatim>\<open>IndexError\<close> at \<^verbatim>\<open>events[0]\<close>. On every non-empty list it returns one of
  the events without error. A run of \<^verbatim>\<open>process_lines\<close> never meets the error,
  because the text searched for charge events begins with the start battery
  line itself.
\<close>

theorem get_closest_event_empty_raises:
  "get_closest_event [] q = ([], Raise IndexError)
   \<and> (events \<noteq> [] \<longrightarrow> (\<exists>e\<in>set events. snd (get_closest_event events q) = Ok e))
   \<and> snd (process_lines ls now1 now2 ioreg) \<noteq> Raise IndexError"
proof -
  have "get_closest_event [] q = ([], Raise IndexError)"
    by (simp add: get_closest_event_def bisect_left_def bisect_left_loop_done)
  with get_closest_event_nonempty[of events q] process_lines_no_index_error[of ls now1 now2 ioreg]
  show ?thesis by blast
qed

theorem get_closest_event_empty_raises_witness:
  "[(0, 80)] \<noteq> ([] :: event list) \<and> snd (get_closest_event [(0, 80)] 5) = Ok (0, 80)"
  using get_closest_event_empty_raises[of 5 "[(0, 80)]"] by simp

theorem get_closest_event_empty_counterexample:
  "snd (get_closest_event [] 63745056000000000) = Raise IndexError"
  by (simp add: get_closest_event_def bisect_left_def bisect_left_loop_done)

text \<open>
  C3. Boundary detection succeeds only when the backward scan meets an AC charge
  line after it has seen a battery charge line, that is, when some AC charge line
  lies earlier in the log than some battery charge line. A log that begins
  mid-session, with battery charge lines but no AC charge line before any of
  them, is not accepted: the run ends with the message that the last unplug
  could not be determined, on standard output, and exit status 1 (or with the
  \<^verbatim>\<open>ValueError\<close> of a battery line whose timestamp names no real date).
\<close>

theorem boundary_detection_outcome:
  "(\<not> ac_before_batt ls \<longrightarrow>
      process_lines ls now1 now2 ioreg =
        ([(Stdout, Text ''Could not determine when the PC was last unplugged from AC.'')], Exit 1)
      \<or> process_lines ls now1 now2 ioreg = ([], Raise ValueError))
   \<and> (ac_before_batt ls \<longrightarrow>
      (\<exists>b. find_boundary ls = ([], Ok b)) \<or> find_boundary ls = ([], Raise ValueError))"
proof -
  have "process_lines ls now1 now2 ioreg = (out, Exit k)"
    if "find_boundary ls = (out, Exit k)" for out k
    using that by (simp add: process_lines_def)
  moreover have "process_lines ls now1 now2 ioreg = ([], Raise e)"
    if "find_boundary ls = ([], Raise e)" for e
    using that by (simp add: process_lines_def)
  ultimately show ?thesis using find_boundary_outcome[of ls] by metis
qed

theorem boundary_detection_outcome_witness:
  "\<not> ac_before_batt
        [''2021-01-01 09:00:00 +0100 N Display is turned on'',
         ''2021-01-01 10:00:00 +0100 S Using Batt (Charge:80%)'',
         ''2021-01-01 10:10:00 +0100 N Display is turned off'']
   \<and> process_lines
        [''2021-01-01 09:00:00 +0100 N Display is turned on'',
         ''2021-01-01 10:00:00 +0100 S Using Batt (Charge:80%)'',
         ''2021-01-01 10:10:00 +0100 N Display is turned off'']
        63745092720000000 63745092720000000 [''  \"CurrentCapacity\" = 78'']
      = ([(Stdout, Text ''Could not determine when the PC was last unplugged from AC.'')], Exit 1)
   \<and> ac_before_batt
        [''2021-01-01 09:30:00 +0100 S Using AC (Charge:100%)'',
         ''2021-01-01 10:00:00 +0100 S Using Batt (Charge:80%)'']
   \<and> (\<exists>b. find_boundary
        [''2021-01-01 09:30:00 +0100 S Using AC (Charge:100%)'',
         ''2021-01-01 10:00:00 +0100 S Using Batt (Charge:80%)''] = ([], Ok b))"
proof -
  let ?A = "[''2021-01-01 09:00:00 +0100 N Display is turned on'',
         ''2021-01-01 10:00:00 +0100 S Using Batt (Charge:80%)'',
         ''2021-01-01 10:10:00 +0100 N Display is turned off'']"
  let ?B = "[''2021-01-01 09:30:00 +0100 S Using AC (Charge:100%)'',
         ''2021-01-01 10:00:00 +0100 S Using Batt (Charge:80%)'']"
  have a: "\<not> ac_before_batt ?A" by code_simp
  have b: "ac_before_batt ?B" by code_simp
  have fa: "find_boundary ?A =
      ([(Stdout, Text ''Could not determine when the PC was last unplugged from AC.'')], Exit 1)"
    by code_simp
  have nb: "find_boundary ?B \<noteq> ([], Raise ValueError)" by code_simp
  have na': "process_lines ?A 63745092720000000 63745092720000000 [''  \"CurrentCapacity\" = 78'']
      \<noteq> ([], Raise ValueError)"
    by (simp add: process_lines_def fa)
  from boundary_detection_outcome[of ?A 63745092720000000 63745092720000000 "[''  \"CurrentCapacity\" = 78'']"]
    a na'
  have 1: "process_lines ?A 63745092720000000 63745092720000000 [''  \"CurrentCapacity\" = 78'']
      = ([(Stdout, Text ''Could not determine when the PC was last unplugged from AC.'')], Exit 1)"
    by blast
  from boundary_detection_outcome[of ?B] b nb
  have 2: "\<exists>b. find_boundary ?B = ([], Ok b)" by blast
  from a 1 b 2 show ?thesis by blast
qed

theorem mid_session_log_counterexample:
  "list_ex is_batt
        [''2021-01-01 09:00:00 +0100 N Display is turned on'',
         ''2021-01-01 10:00:00 +0100 S Using Batt (Charge:80%)'',
         ''2021-01-01 10:10:00 +0100 N Display is turned off'']
   \<and> \<not> list_ex is_ac
        [''2021-01-01 09:00:00 +0100 N Display is turned on'',
         ''2021-01-01 10:00:00 +0100 S Using Batt (Charge:80%)'',
         ''2021-01-01 10:10:00 +0100 N Display is turned off'']
   \<and> find_boundary
        [''2021-01-01 09:00:00 +0100 N Display is turned on'',
         ''2021-01-01 10:00:00 +0100 S Using Batt (Charge:80%)'',
         ''2021-01-01 10:10:00 +0100 N Display is turned off'']
      = ([(Stdout, Text ''Could not determine when the PC was last unplugged from AC.'')], Exit 1)"
  by code_simp

text \<open>
  C4. For a display line that is processed as a transition (its state differs
  from the current one), the step prints the report line exactly when the
  duration exceeds 300 seconds, labelled \<^verbatim>\<open>sleep\<close> when the state being entered
  is \<^verbatim>\<open>on\<close> and \<^verbatim>\<open>usage\<close> otherwise; and, printed or not, it adds the
  interval's consumption and duration to the display-off totals when the state
  being entered is \<^verbatim>\<open>on\<close> and to the display-on totals otherwise, leaving the
  other pair of totals unchanged. Label and bucket are chosen by the state being
  entered.
\<close>

theorem walk_step_label_and_bucket:
  fixes st :: walk_state and new_timestamp :: datetime
  defines "duration \<equiv> total_seconds (new_timestamp - last_display_switch st)"
  assumes "rx_match display_regex line = Some (m, r)"
    and "group m ''state'' \<noteq> current_display_state st"
    and "convert_timestamp (group m ''timestamp'') = Ok new_timestamp"
    and "charge_events \<noteq> []"
  shows "\<exists>e1 e2 st'.
      snd (get_closest_event charge_events (last_display_switch st)) = Ok e1
    \<and> snd (get_closest_event charge_events new_timestamp) = Ok e2
    \<and> walk_step charge_events st line =
        (fst (get_closest_event charge_events (last_display_switch st))
         @ fst (get_closest_event charge_events new_timestamp)
         @ (if 300 < duration
            then [(Stdout, IntervalLine (last_display_switch st) new_timestamp (snd e1 - snd e2)
                     (py_trunc (duration / 3600)) (py_trunc (py_fmod duration 3600 / 60))
                     (if group m ''state'' = ''on'' then ''sleep'' else ''usage''))]
            else []),
         Ok st')
    \<and> current_display_state st' = group m ''state''
    \<and> last_display_switch st' = new_timestamp
    \<and> (if group m ''state'' = ''on''
        then total_time_with_display_off st' = total_time_with_display_off st + duration
           \<and> total_consumption_with_display_off st' =
               total_consumption_with_display_off st + (snd e1 - snd e2)
           \<and> total_time_with_display_on st' = total_time_with_display_on st
           \<and> total_consumption_with_display_on st' = total_consumption_with_display_on st
        else total_time_with_display_on st' = total_time_with_display_on st + duration
           \<and> total_consumption_with_display_on st' =
               total_consumption_with_display_on st + (snd e1 - snd e2)
           \<and> total_time_with_display_off st' = total_time_with_display_off st
           \<and> total_consumption_with_display_off st' = total_consumption_with_display_off st)"
proof -
  from \<open>charge_events \<noteq> []\<close> obtain g1 e1
    where 1: "get_closest_event charge_events (last_display_switch st) = (g1, Ok e1)"
    by (rule get_closest_event_Ok)
  from \<open>charge_events \<noteq> []\<close> obtain g2 e2
    where 2: "get_closest_event charge_events new_timestamp = (g2, Ok e2)"
    by (rule get_closest_event_Ok)
  note w = walk_step_change[OF assms(2,3,4) 1 2]
  show ?thesis
    apply (rule exI[of _ e1], rule exI[of _ e2])
    apply (subst w)
    apply (simp add: 1 2 duration_def)
    done
qed

theorem walk_step_label_and_bucket_witness:
  "\<exists>e1 e2 st'.
      snd (get_closest_event [(63745092000000000, 80), (63745092600000000, 78), (63745099800000000, 60)]
             63745092600000000) = Ok e1
    \<and> snd (get_closest_event [(63745092000000000, 80), (63745092600000000, 78), (63745099800000000, 60)]
             63745099800000000) = Ok e2
    \<and> walk_step [(63745092000000000, 80), (63745092600000000, 78), (63745099800000000, 60)]
          \<lparr>current_display_state = ''off'', last_display_switch = 63745092600000000,
           total_time_with_display_on = 600, total_time_with_display_off = 0,
           total_consumption_with_display_on = 2, total_consumption_with_display_off = 0\<rparr>
          ''2021-01-01 12:10:00 +0100 N Display is turned on'' =
        ([(Stdout, IntervalLine 63745092600000000 63745099800000000 (snd e1 - snd e2) 2 0 ''sleep'')],
         Ok st')
    \<and> snd e1 - snd e2 = 18
    \<and> current_display_state st' = ''on''
    \<and> last_display_switch st' = 63745099800000000
    \<and> total_time_with_display_off st' = 7200
    \<and> total_consumption_with_display_off st' = 18
    \<and> total_time_with_display_on st' = 600
    \<and> total_consumption_with_display_on st' = 2"
proof -
  let ?ev = "[(63745092000000000, 80), (63745092600000000, 78), (63745099800000000, 60)] :: event list"
  let ?st = "\<lparr>current_display_state = ''off'', last_display_switch = 63745092600000000,
           total_time_with_display_on = 600, total_time_with_display_off = 0,
           total_consumption_with_display_on = 2, total_consumption_with_display_off = 0\<rparr>"
  let ?m = "[(''state'', ''on''), (''timestamp'', ''2021-01-01 12:10:00'')]"
  have h1: "rx_match display_regex ''2021-01-01 12:10:00 +0100 N Display is turned on'' = Some (?m, [])"
    by code_simp
  have h2: "group ?m ''state'' \<noteq> current_display_state ?st" by (simp add: group_def)
  have h3: "convert_timestamp (group ?m ''timestamp'') = Ok 63745099800000000" by code_simp
  have h4: "?ev \<noteq> []" by simp
  have g1: "get_closest_event ?ev 63745092600000000 = ([], Ok (63745092600000000, 78))"
    by (simp add: get_closest_event_def bisect_left_def bisect_left_loop_step bisect_left_loop_done
        total_seconds_def)
  have g2: "get_closest_event ?ev 63745099800000000 = ([], Ok (63745099800000000, 60))"
    by (simp add: get_closest_event_def bisect_left_def bisect_left_loop_step bisect_left_loop_done
        total_seconds_def)
  have d: "total_seconds (63745099800000000 - 63745092600000000) = 7200"
    by (simp add: total_seconds_def)
  have t: "py_trunc (7200 / 3600) = 2" "py_trunc (py_fmod 7200 3600 / 60) = 0"
    by (simp_all add: py_trunc_def py_fmod_def)
  from walk_step_label_and_bucket[OF h1 h2 h3 h4]
  show ?thesis
    by (simp add: g1 g2 group_def total_seconds_def py_trunc_def py_fmod_def)
qed

text \<open>
  C5. On a window whose display lines carry real dates and alternate in state,
  starting from a state other than the start state, the forward walk returns,
  its last switch is the timestamp of the last display line (the start timestamp
  when there is none), and the two time totals together, which sum the durations
  of all intervals whether printed or not, equal that end timestamp minus the
  start timestamp.
\<close>

theorem walk_durations_telescope:
  assumes "charge_events \<noteq> []" and "valid_display_times ls"
    and "alternating start_display_state ls"
  shows "\<exists>out st'.
      walk charge_events
        \<lparr>current_display_state = start_display_state, last_display_switch = start_ts,
         total_time_with_display_on = 0, total_time_with_display_off = 0,
         total_consumption_with_display_on = 0, total_consumption_with_display_off = 0\<rparr> ls
        = (out, Ok st')
    \<and> last_display_switch st' = last (start_ts # display_times ls)
    \<and> total_time_with_display_on st' + total_time_with_display_off st'
        = total_seconds (last (start_ts # display_times ls) - start_ts)"
proof -
  let ?st = "\<lparr>current_display_state = start_display_state, last_display_switch = start_ts,
         total_time_with_display_on = 0, total_time_with_display_off = 0,
         total_consumption_with_display_on = 0, total_consumption_with_display_off = 0\<rparr>"
  from assms(3) have "alternating (current_display_state ?st) ls" by simp
  from walk_alternating[OF assms(1,2) this] obtain out st' where
    w: "walk charge_events ?st ls = (out, Ok st')"
    and l: "last_display_switch st' = last (last_display_switch ?st # display_times ls)" by blast
  from walk_telescope[OF w] l
  have "total_time_with_display_on st' + total_time_with_display_off st'
        = total_seconds (last (start_ts # display_times ls) - start_ts)" by simp
  with w l show ?thesis by auto
qed

theorem walk_durations_telescope_witness:
  "\<exists>out st'.
      walk [(63745092000000000, 80), (63745092600000000, 78), (63745099800000000, 60)]
        \<lparr>current_display_state = ''on'', last_display_switch = 63745092000000000,
         total_time_with_display_on = 0, total_time_with_display_off = 0,
         total_consumption_with_display_on = 0, total_consumption_with_display_off = 0\<rparr>
        [''2021-01-01 10:04:00 +0100 N Display is turned off'',
         ''2021-01-01 10:10:00 +0100 S Using Batt (Charge:78%)'',
         ''2021-01-01 12:10:00 +0100 N Display is turned on'']
        = (out, Ok st')
    \<and> last_display_switch st' = 63745099800000000
    \<and> total_time_with_display_on st' + total_time_with_display_off st' = 7800"
proof -
  let ?ls = "[''2021-01-01 10:04:00 +0100 N Display is turned off'',
         ''2021-01-01 10:10:00 +0100 S Using Batt (Charge:78%)'',
         ''2021-01-01 12:10:00 +0100 N Display is turned on'']"
  let ?ev = "[(63745092000000000, 80), (63745092600000000, 78), (63745099800000000, 60)] :: event list"
  have h1: "?ev \<noteq> []" by simp
  have h2: "valid_display_times ?ls" by code_simp
  have h3: "alternating ''on'' ?ls" by code_simp
  have dt: "display_times ?ls = [63745092240000000, 63745099800000000]" by code_simp
  from walk_durations_telescope[OF h1 h2 h3, of 63745092000000000]
  show ?thesis unfolding dt by (simp add: total_seconds_def del: walk.simps)
qed




text \<open>
  C7. When the display timestamps of the window are in chronological order from
  the last switch on, the two time totals never decrease along the forward walk.
  The two consumption totals are plain running sums of the unclamped consumption:
  an interval with negative consumption lowers its total.
\<close>

theorem walk_totals_monotone:
  assumes "walk charge_events st ls = (out, Ok st')"
    and "sorted (last_display_switch st # display_times ls)"
  shows "total_time_with_display_on st \<le> total_time_with_display_on st'
       \<and> total_time_with_display_off st \<le> total_time_with_display_off st'"
  using assms by (rule walk_time_mono)

theorem walk_totals_monotone_witness:
  "walk [(63745092000000000, 80), (63745092600000000, 85)]
        \<lparr>current_display_state = ''on'', last_display_switch = 63745092000000000,
         total_time_with_display_on = 0, total_time_with_display_off = 0,
         total_consumption_with_display_on = 0, total_consumption_with_display_off = 0\<rparr>
        [''2021-01-01 10:10:00 +0100 N Display is turned off'']
   = ([(Stdout, IntervalLine 63745092000000000 63745092600000000 (- 5) 0 10 ''usage'')],
      Ok \<lparr>current_display_state = ''off'', last_display_switch = 63745092600000000,
         total_time_with_display_on = 600, total_time_with_display_off = 0,
         total_consumption_with_display_on = - 5, total_consumption_with_display_off = 0\<rparr>)
   \<and> sorted (63745092000000000 # display_times [''2021-01-01 10:10:00 +0100 N Display is turned off''])
   \<and> (0::rat) \<le> 600 \<and> (0::rat) \<le> 0"
proof -
  let ?ev = "[(63745092000000000, 80), (63745092600000000, 85)] :: event list"
  let ?st = "\<lparr>current_display_state = ''on'', last_display_switch = 63745092000000000,
         total_time_with_display_on = 0, total_time_with_display_off = 0,
         total_consumption_with_display_on = 0, total_consumption_with_display_off = 0\<rparr>"
  let ?m = "[(''state'', ''off''), (''timestamp'', ''2021-01-01 10:10:00'')]"
  have h1: "rx_match display_regex ''2021-01-01 10:10:00 +0100 N Display is turned off'' = Some (?m, [])"
    by code_simp
  have h2: "group ?m ''state'' \<noteq> current_display_state ?st" by (simp add: group_def)
  have h3: "convert_timestamp (group ?m ''timestamp'') = Ok 63745092600000000" by code_simp
  have g1: "get_closest_event ?ev (last_display_switch ?st) = ([], Ok (63745092000000000, 80))"
    by (simp add: get_closest_event_def bisect_left_def bisect_left_loop_step bisect_left_loop_done
        total_seconds_def)
  have g2: "get_closest_event ?ev 63745092600000000 = ([], Ok (63745092600000000, 85))"
    by (simp add: get_closest_event_def bisect_left_def bisect_left_loop_step bisect_left_loop_done
        total_seconds_def)
  have w: "walk ?ev ?st [''2021-01-01 10:10:00 +0100 N Display is turned off'']
   = ([(Stdout, IntervalLine 63745092000000000 63745092600000000 (- 5) 0 10 ''usage'')],
      Ok \<lparr>current_display_state = ''off'', last_display_switch = 63745092600000000,
         total_time_with_display_on = 600, total_time_with_display_off = 0,
         total_consumption_with_display_on = - 5, total_consumption_with_display_off = 0\<rparr>)"
    by (simp add: walk_step_change[OF h1 h2 h3 g1 g2] group_def total_seconds_def py_trunc_def py_fmod_def)
  have s: "sorted (last_display_switch ?st # display_times [''2021-01-01 10:10:00 +0100 N Display is turned off''])"
    by (simp add: h1 h3)
  from walk_totals_monotone[OF w s] w s show ?thesis by simp
qed

theorem consumption_total_decreases_counterexample:
  "walk [(63745092000000000, 80), (63745092600000000, 85)]
        \<lparr>current_display_state = ''on'', last_display_switch = 63745092000000000,
         total_time_with_display_on = 0, total_time_with_display_off = 0,
         total_consumption_with_display_on = 0, total_consumption_with_display_off = 0\<rparr>
        [''2021-01-01 10:10:00 +0100 N Display is turned off'']
   = ([(Stdout, IntervalLine 63745092000000000 63745092600000000 (- 5) 0 10 ''usage'')],
      Ok \<lparr>current_display_state = ''off'', last_display_switch = 63745092600000000,
         total_time_with_display_on = 600, total_time_with_display_off = 0,
         total_consumption_with_display_on = - 5, total_consumption_with_display_off = 0\<rparr>)"
proof -
  let ?ev = "[(63745092000000000, 80), (63745092600000000, 85)] :: event list"
  let ?st = "\<lparr>current_display_state = ''on'', last_display_switch = 63745092000000000,
         total_time_with_display_on = 0, total_time_with_display_off = 0,
         total_consumption_with_display_on = 0, total_consumption_with_display_off = 0\<rparr>"
  let ?m = "[(''state'', ''off''), (''timestamp'', ''2021-01-01 10:10:00'')]"
  have h1: "rx_match display_regex ''2021-01-01 10:10:00 +0100 N Display is turned off'' = Some (?m, [])"
    by code_simp
  have h2: "group ?m ''state'' \<noteq> current_display_state ?st" by (simp add: group_def)
  have h3: "convert_timestamp (group ?m ''timestamp'') = Ok 63745092600000000" by code_simp
  have g1: "get_closest_event ?ev (last_display_switch ?st) = ([], Ok (63745092000000000, 80))"
    by (simp add: get_closest_event_def bisect_left_def bisect_left_loop_step bisect_left_loop_done
        total_seconds_def)
  have g2: "get_closest_event ?ev 63745092600000000 = ([], Ok (63745092600000000, 85))"
    by (simp add: get_closest_event_def bisect_left_def bisect_left_loop_step bisect_left_loop_done
        total_seconds_def)
  show ?thesis
    by (simp add: walk_step_change[OF h1 h2 h3 g1 g2] group_def total_seconds_def py_trunc_def py_fmod_def)
qed






end
